theory Spec2Isabelle
  imports Complex_Main "HOL-Library.Sublist" "HOL-Library.AList" "HOL-Library.Log_Nat"
begin

text \<open>
  A shallow embedding of the entropy solver of ml/generate\_optimal\_trajectories.py (the
  feedback oracle, the candidate filter, the entropy evaluator, the guess selector and the
  game loop) and of the second feedback oracle, in ml/generate\_quick\_trajectories.py.
  Words are strings, tile states are the strings the program uses, and every function that
  can raise returns a sum whose left summand is the exception.
\<close>

section \<open>Python values and control flow\<close>

text \<open>
  The only exception the modelled functions can raise is Python's \<open>IndexError\<close>
  (an index past the end of a string or list). A function that can raise returns
  \<open>py_error + 'a\<close>, with \<open>Inl\<close> for the exception.
\<close>

datatype py_error = IndexError

text \<open>
  A \<open>for x in xs\<close> loop whose body may raise: the body maps the loop variable and the
  state before the iteration to the state after it, and an exception leaves the loop.
\<close>

fun for_loop :: "('a \<Rightarrow> 's \<Rightarrow> py_error + 's) \<Rightarrow> 'a list \<Rightarrow> 's \<Rightarrow> py_error + 's" where
  "for_loop body [] s = Inr s"
| "for_loop body (x # xs) s =
     (case body x s of Inl e \<Rightarrow> Inl e | Inr s' \<Rightarrow> for_loop body xs s')"

text \<open>Python's slice \<open>xs[:k]\<close>; a negative \<open>k\<close> counts from the end.\<close>

definition py_take :: "int \<Rightarrow> 'a list \<Rightarrow> 'a list" where
  "py_take k xs = (if 0 \<le> k then take (nat k) xs else take (length xs - nat (- k)) xs)"

subsection \<open>collections.Counter over the letters of a word\<close>

text \<open>
  A \<open>Counter\<close> is a dictionary from letters to integers. Reading a missing key gives 0
  and does not insert it; \<open>c[k] -= 1\<close> stores the decremented value under \<open>k\<close>; a key
  whose count reaches 0 stays in the dictionary.
\<close>

type_synonym counter = "char \<rightharpoonup> int"

definition counter_get :: "counter \<Rightarrow> char \<Rightarrow> int" where
  "counter_get m k = (case m k of None \<Rightarrow> 0 | Some v \<Rightarrow> v)"

definition counter_dec :: "counter \<Rightarrow> char \<Rightarrow> counter" where
  "counter_dec m k = m(k \<mapsto> counter_get m k - 1)"

definition Counter :: "string \<Rightarrow> counter" where
  "Counter s = fold (\<lambda>k m. m(k \<mapsto> counter_get m k + 1)) s Map.empty"

section \<open>Tile states\<close>

text \<open>The tile states are the module's string constants.\<close>

definition CORRECT :: string where "CORRECT = ''correct''"
definition PRESENT :: string where "PRESENT = ''present''"
definition ABSENT :: string where "ABSENT = ''absent''"

section \<open>The feedback oracle of generate\_optimal\_trajectories.py\<close>

text \<open>
  The state of both passes is the pair \<open>(feedback, secret_counts)\<close>. Every index
  expression of the source is guarded as Python guards it: \<open>guess[i]\<close> is read before
  \<open>secret[i]\<close>, and the store \<open>feedback[i] = ...\<close> needs \<open>i < len(feedback)\<close>.
\<close>

definition first_pass_body ::
  "string \<Rightarrow> string \<Rightarrow> nat \<Rightarrow> string list \<times> counter \<Rightarrow> py_error + string list \<times> counter" where
  "first_pass_body guess secret i st =
     (case st of (feedback, secret_counts) \<Rightarrow>
        if length guess \<le> i then Inl IndexError
        else if length secret \<le> i then Inl IndexError
        else if guess ! i = secret ! i then
          (if length feedback \<le> i then Inl IndexError
           else Inr (feedback[i := CORRECT], counter_dec secret_counts (guess ! i)))
        else Inr (feedback, secret_counts))"

definition second_pass_body ::
  "string \<Rightarrow> nat \<Rightarrow> string list \<times> counter \<Rightarrow> py_error + string list \<times> counter" where
  "second_pass_body guess i st =
     (case st of (feedback, secret_counts) \<Rightarrow>
        if length feedback \<le> i then Inl IndexError
        else if feedback ! i \<noteq> CORRECT then
          (if length guess \<le> i then Inl IndexError
           else if secret_counts (guess ! i) \<noteq> None then
             (if counter_get secret_counts (guess ! i) > 0
              then Inr (feedback[i := PRESENT], counter_dec secret_counts (guess ! i))
              else Inr (feedback, secret_counts))
           else Inr (feedback, secret_counts))
        else Inr (feedback, secret_counts))"

definition generate_feedback :: "string \<Rightarrow> string \<Rightarrow> py_error + string list" where
  "generate_feedback guess secret =
     (let len = length secret;
          feedback = replicate len ABSENT;
          secret_counts = Counter secret
      in case for_loop (first_pass_body guess secret) [0..<len] (feedback, secret_counts) of
           Inl e \<Rightarrow> Inl e
         | Inr st \<Rightarrow>
             (case for_loop (second_pass_body guess) [0..<len] st of
                Inl e \<Rightarrow> Inl e
              | Inr (feedback', secret_counts') \<Rightarrow> Inr feedback'))"

section \<open>The feedback oracle of generate\_quick\_trajectories.py\<close>

text \<open>
  The second oracle writes the tile states as literals, runs both loops over
  \<open>range(len(guess))\<close>, and nests the membership test inside the test of the tile.
\<close>

definition quick_first_pass_body ::
  "string \<Rightarrow> string \<Rightarrow> nat \<Rightarrow> string list \<times> counter \<Rightarrow> py_error + string list \<times> counter" where
  "quick_first_pass_body guess secret i st =
     (case st of (feedback, secret_counts) \<Rightarrow>
        if length guess \<le> i then Inl IndexError
        else if length secret \<le> i then Inl IndexError
        else if guess ! i = secret ! i then
          (if length feedback \<le> i then Inl IndexError
           else Inr (feedback[i := ''correct''], counter_dec secret_counts (guess ! i)))
        else Inr (feedback, secret_counts))"

definition quick_second_pass_body ::
  "string \<Rightarrow> nat \<Rightarrow> string list \<times> counter \<Rightarrow> py_error + string list \<times> counter" where
  "quick_second_pass_body guess i st =
     (case st of (feedback, secret_counts) \<Rightarrow>
        if length feedback \<le> i then Inl IndexError
        else if feedback ! i \<noteq> ''correct'' then
          (if length guess \<le> i then Inl IndexError
           else if secret_counts (guess ! i) \<noteq> None \<and> counter_get secret_counts (guess ! i) > 0
             then Inr (feedback[i := ''present''], counter_dec secret_counts (guess ! i))
             else Inr (feedback, secret_counts))
        else Inr (feedback, secret_counts))"

definition quick_generate_feedback :: "string \<Rightarrow> string \<Rightarrow> py_error + string list" where
  "quick_generate_feedback guess secret =
     (let feedback = replicate (length secret) ''absent'';
          secret_counts = Counter secret
      in case for_loop (quick_first_pass_body guess secret) [0..<length guess]
                (feedback, secret_counts) of
           Inl e \<Rightarrow> Inl e
         | Inr st \<Rightarrow>
             (case for_loop (quick_second_pass_body guess) [0..<length guess] st of
                Inl e \<Rightarrow> Inl e
              | Inr (feedback', secret_counts') \<Rightarrow> Inr feedback'))"

section \<open>The candidate filter\<close>

text \<open>
  The loop of \<open>apply_feedback_to_candidates\<close> over the pool: the state is the list
  \<open>new_candidates\<close>; an exception of the oracle leaves the function.
\<close>

definition filter_body :: "string \<Rightarrow> string list \<Rightarrow> string \<Rightarrow> string list \<Rightarrow> py_error + string list" where
  "filter_body guess feedback word new_candidates =
     (case generate_feedback guess word of
        Inl e \<Rightarrow> Inl e
      | Inr test_feedback \<Rightarrow>
          if test_feedback = feedback then Inr (new_candidates @ [word]) else Inr new_candidates)"

definition apply_feedback_to_candidates ::
  "string list \<Rightarrow> string \<Rightarrow> string list \<Rightarrow> py_error + string list" where
  "apply_feedback_to_candidates candidates guess feedback =
     for_loop (filter_body guess feedback) candidates []"

section \<open>Floating-point arithmetic\<close>

text \<open>
  The evaluator and the selector compute with Python floats. The arithmetic is not part of
  the repository, so it is a parameter of the model: a record of the operations the code
  applies, over a linearly ordered type \<open>'f\<close> of float values. \<open>fl_div\<close> is the true
  division \<open>count / total\<close> of two integers, \<open>fl_log2\<close> is \<open>math.log2\<close>, and the
  constants are the literals \<open>0.0\<close>, \<open>0.1\<close> and \<open>-1.0\<close> of the source (the integer
  \<open>0\<close> in \<open>entropy + 0\<close> is converted to \<open>0.0\<close> by the addition).
  \<open>math.log2\<close> raises on an argument that is not positive; its only argument in the code
  is \<open>count / total\<close> with \<open>0 < count\<close>, and the model takes it as a total function.
\<close>

record 'f float_ops =
  fl_div :: "int \<Rightarrow> int \<Rightarrow> 'f"
  fl_log2 :: "'f \<Rightarrow> 'f"
  fl_mul :: "'f \<Rightarrow> 'f \<Rightarrow> 'f"
  fl_sub :: "'f \<Rightarrow> 'f \<Rightarrow> 'f"
  fl_add :: "'f \<Rightarrow> 'f \<Rightarrow> 'f"
  fl_zero :: 'f
  fl_tenth :: 'f
  fl_neg_one :: 'f

subsection \<open>Exact arithmetic\<close>

text \<open>The operations without rounding, on the real numbers.\<close>

definition exact_ops :: "real float_ops" where
  "exact_ops =
     \<lparr>fl_div = (\<lambda>c t. real_of_int c / real_of_int t), fl_log2 = log 2,
      fl_mul = (\<lambda>a b. a * b), fl_sub = (\<lambda>a b. a - b), fl_add = (\<lambda>a b. a + b),
      fl_zero = 0, fl_tenth = 1 / 10, fl_neg_one = - 1\<rparr>"

subsection \<open>IEEE 754 double precision\<close>

text \<open>
  A double is a rational number with a significand of 53 bits; every operation returns the
  double nearest to the exact result, a tie going to the even significand. Overflow,
  subnormal numbers and the sign of zero are left out: the numbers of the evaluator stay
  far inside the normal range. \<open>math.log2\<close> is taken to be correctly rounded.
\<close>

definition pow2 :: "int \<Rightarrow> rat" where
  "pow2 k = (if 0 \<le> k then 2 ^ nat k else 1 / 2 ^ nat (- k))"

definition round_half_even :: "rat \<Rightarrow> int" where
  "round_half_even q =
     (let f = \<lfloor>q\<rfloor>; r = q - of_int f
      in if r < 1 / 2 then f else if 1 / 2 < r then f + 1 else if even f then f else f + 1)"

definition binade :: "rat \<Rightarrow> int" where
  "binade x =
     (let (a, b) = quotient_of \<bar>x\<bar>; d = bitlen a - bitlen b
      in if pow2 d \<le> \<bar>x\<bar> then d else d - 1)"

definition round_double :: "rat \<Rightarrow> rat" where
  "round_double x =
     (if x = 0 then 0
      else let u = pow2 (binade x - 52) in of_int (round_half_even (x / u)) * u)"

text \<open>The same rounding, of a real number that need not be rational.\<close>

definition round_half_even_real :: "real \<Rightarrow> int" where
  "round_half_even_real q =
     (let f = \<lfloor>q\<rfloor>; r = q - of_int f
      in if r < 1 / 2 then f else if 1 / 2 < r then f + 1 else if even f then f else f + 1)"

definition round_double_real :: "real \<Rightarrow> rat" where
  "round_double_real y =
     (if y = 0 then 0
      else let u = pow2 (\<lfloor>log 2 \<bar>y\<bar>\<rfloor> - 52)
           in of_int (round_half_even_real (y / of_rat u)) * u)"

definition double_log2 :: "rat \<Rightarrow> rat" where
  "double_log2 x = round_double_real (log 2 (of_rat x))"

definition double_ops :: "rat float_ops" where
  "double_ops =
     \<lparr>fl_div = (\<lambda>c t. round_double (of_int c / of_int t)), fl_log2 = double_log2,
      fl_mul = (\<lambda>a b. round_double (a * b)), fl_sub = (\<lambda>a b. round_double (a - b)),
      fl_add = (\<lambda>a b. round_double (a + b)),
      fl_zero = 0, fl_tenth = round_double (1 / 10), fl_neg_one = - 1\<rparr>"

subsection \<open>What the proofs need of an arithmetic\<close>

text \<open>
  \<open>float_signs ops n\<close> holds of an arithmetic when, for a pool of \<open>n\<close> words, the
  term \<open>p * log2(p)\<close> of a bucket is not positive, subtracting such a term from a
  non-negative number gives a non-negative number, and a non-negative entropy plus the
  bonus is above \<open>-1.0\<close>. \<open>float_zero_test ops n\<close> holds when the term of a bucket
  that holds the whole pool leaves the entropy \<open>0.0\<close>, the term of a smaller bucket is
  negative, and subtracting a negative term from a non-negative number gives a positive one.
\<close>

definition float_signs :: "('f::linorder) float_ops \<Rightarrow> int \<Rightarrow> bool" where
  "float_signs ops n \<longleftrightarrow>
     (\<forall>c. 0 < c \<and> c \<le> n \<longrightarrow>
        fl_mul ops (fl_div ops c n) (fl_log2 ops (fl_div ops c n)) \<le> fl_zero ops) \<and>
     (\<forall>a b. fl_zero ops \<le> a \<and> b \<le> fl_zero ops \<longrightarrow> fl_zero ops \<le> fl_sub ops a b) \<and>
     (\<forall>a. fl_zero ops \<le> a \<longrightarrow>
        fl_neg_one ops < fl_add ops a (fl_tenth ops) \<and>
        fl_neg_one ops < fl_add ops a (fl_zero ops))"

definition float_zero_test :: "('f::linorder) float_ops \<Rightarrow> int \<Rightarrow> bool" where
  "float_zero_test ops n \<longleftrightarrow>
     fl_sub ops (fl_zero ops) (fl_mul ops (fl_div ops n n) (fl_log2 ops (fl_div ops n n)))
       = fl_zero ops \<and>
     (\<forall>c. 0 < c \<and> c < n \<longrightarrow>
        fl_mul ops (fl_div ops c n) (fl_log2 ops (fl_div ops c n)) < fl_zero ops) \<and>
     (\<forall>a b. fl_zero ops \<le> a \<and> b < fl_zero ops \<longrightarrow> fl_zero ops < fl_sub ops a b)"

section \<open>The entropy evaluator\<close>

text \<open>
  \<open>pattern_counts\<close> is a dictionary from feedback patterns to counts, kept as an
  association list in insertion order, which is the order in which Python iterates over
  its values.
\<close>

definition count_body ::
  "string \<Rightarrow> string \<Rightarrow> (string list \<times> int) list \<Rightarrow> py_error + (string list \<times> int) list" where
  "count_body guess candidate pattern_counts =
     (case generate_feedback guess candidate of
        Inl e \<Rightarrow> Inl e
      | Inr feedback \<Rightarrow>
          Inr (AList.update feedback
                 ((case map_of pattern_counts feedback of None \<Rightarrow> 0 | Some c \<Rightarrow> c) + 1)
                 pattern_counts))"

definition entropy_body :: "'f float_ops \<Rightarrow> nat \<Rightarrow> int \<Rightarrow> 'f \<Rightarrow> 'f" where
  "entropy_body ops total' count entropy =
     (if count > 0
      then (let p = fl_div ops count (int total')
            in fl_sub ops entropy (fl_mul ops p (fl_log2 ops p)))
      else entropy)"

definition calculate_entropy :: "'f float_ops \<Rightarrow> string \<Rightarrow> string list \<Rightarrow> py_error + 'f" where
  "calculate_entropy ops guess candidates =
     (if candidates = [] then Inr (fl_zero ops)
      else case for_loop (count_body guess) candidates [] of
             Inl e \<Rightarrow> Inl e
           | Inr pattern_counts \<Rightarrow>
               Inr (fold (entropy_body ops (length candidates)) (map snd pattern_counts)
                      (fl_zero ops)))"

section \<open>The guess selector\<close>

definition common_starters :: "nat \<rightharpoonup> string list" where
  "common_starters =
     [3 \<mapsto> [''are'', ''ate'', ''ear''],
      4 \<mapsto> [''tear'', ''rate'', ''late''],
      5 \<mapsto> [''arose'', ''slate'', ''crane''],
      6 \<mapsto> [''strain'', ''trains'', ''grains''],
      7 \<mapsto> [''stainer'', ''trained'', ''detains'']]"

text \<open>
  The list \<open>words_to_evaluate\<close> as the selector builds it before its scoring loop.
  \<open>candidates[:20]\<close> is a fresh list, so the appended starter words never reach
  \<open>candidates\<close>.
\<close>

definition add_starter :: "string list \<Rightarrow> string \<Rightarrow> string list \<Rightarrow> string list" where
  "add_starter all_words word wte =
     (if word \<in> set all_words \<and> word \<notin> set wte then wte @ [word] else wte)"

definition words_to_evaluate :: "string list \<Rightarrow> string list \<Rightarrow> int \<Rightarrow> string list" where
  "words_to_evaluate candidates all_words max_search =
     (let wte =
        (if length candidates \<le> 10 then candidates
         else let wte20 = take 20 candidates in
           if length candidates > 50 then
             (case common_starters (length (candidates ! 0)) of
                None \<Rightarrow> wte20
              | Some starters \<Rightarrow> fold (add_starter all_words) starters wte20)
           else wte20)
      in if int (length wte) > max_search then py_take max_search wte else wte)"

text \<open>
  The scoring loop: \<open>word_score\<close> is the value of \<open>score\<close> that one iteration
  computes for \<open>word\<close>, and the state of the loop is the pair
  \<open>(best_word, best_score)\<close>.
\<close>

definition word_score :: "'f float_ops \<Rightarrow> string list \<Rightarrow> string \<Rightarrow> py_error + 'f" where
  "word_score ops candidates word =
     (case calculate_entropy ops word candidates of
        Inl e \<Rightarrow> Inl e
      | Inr entropy \<Rightarrow>
          let is_candidate = (word \<in> set candidates)
          in Inr (fl_add ops entropy (if is_candidate then fl_tenth ops else fl_zero ops)))"

definition score_body ::
  "('f::linorder) float_ops \<Rightarrow> string list \<Rightarrow> string \<Rightarrow> string \<times> 'f \<Rightarrow> py_error + string \<times> 'f" where
  "score_body ops candidates word st =
     (case st of (best_word, best_score) \<Rightarrow>
        (case word_score ops candidates word of
           Inl e \<Rightarrow> Inl e
         | Inr score \<Rightarrow>
             if score > best_score then Inr (word, score) else Inr (best_word, best_score)))"

text \<open>
  Two notions used to state what the selector returns: the starter words the table holds
  for the length of the first candidate, and the score of a word as a float (the value
  \<open>word_score\<close> returns; \<open>0.0\<close> stands in where \<open>word_score\<close> raises).
\<close>

definition starters_for :: "string list \<Rightarrow> string set" where
  "starters_for candidates =
     (case common_starters (length (candidates ! 0)) of None \<Rightarrow> {} | Some ss \<Rightarrow> set ss)"

definition score_of :: "'f float_ops \<Rightarrow> string list \<Rightarrow> string \<Rightarrow> 'f" where
  "score_of ops candidates w =
     (case word_score ops candidates w of Inl e \<Rightarrow> fl_zero ops | Inr s \<Rightarrow> s)"

definition get_optimal_guess ::
  "('f::linorder) float_ops \<Rightarrow> string list \<Rightarrow> string list \<Rightarrow> int \<Rightarrow> py_error + string" where
  "get_optimal_guess ops candidates all_words max_search =
     (if length candidates = 1 then Inr (candidates ! 0)
      else if length candidates = 2 then Inr (candidates ! 0)
      else
        let wte = words_to_evaluate candidates all_words max_search in
        (case candidates of
           [] \<Rightarrow> Inl IndexError
         | c0 # cs \<Rightarrow>
             (case for_loop (score_body ops candidates) wte (c0, fl_neg_one ops) of
                Inl e \<Rightarrow> Inl e
              | Inr (best_word, best_score) \<Rightarrow> Inr best_word)))"

section \<open>The game simulator\<close>

record game_state =
  st_candidates :: "string list"
  st_guesses :: "string list"
  st_feedbacks :: "string list list"
  st_won :: bool

record trajectory =
  traj_secret :: string
  traj_guesses :: "string list"
  traj_feedbacks :: "string list list"
  traj_won :: bool
  traj_num_guesses :: nat

text \<open>
  The loop \<open>for guess_num in range(max_guesses)\<close> with its two \<open>break\<close>s: a \<open>break\<close>
  returns the state without running the remaining iterations. The selector is called
  with its default \<open>max_search = 30\<close>.
\<close>

fun play_loop ::
  "('f::linorder) float_ops \<Rightarrow> string \<Rightarrow> string list \<Rightarrow> nat list \<Rightarrow> game_state
     \<Rightarrow> py_error + game_state" where
  "play_loop ops secret all_words [] st = Inr st"
| "play_loop ops secret all_words (guess_num # rest) st =
     (case get_optimal_guess ops (st_candidates st) all_words 30 of
        Inl e \<Rightarrow> Inl e
      | Inr guess \<Rightarrow>
          (case generate_feedback guess secret of
             Inl e \<Rightarrow> Inl e
           | Inr feedback \<Rightarrow>
               let st1 = st\<lparr>st_guesses := st_guesses st @ [guess],
                            st_feedbacks := st_feedbacks st @ [feedback]\<rparr>
               in if guess = secret then Inr (st1\<lparr>st_won := True\<rparr>)
                  else
                    (case apply_feedback_to_candidates (st_candidates st) guess feedback of
                       Inl e \<Rightarrow> Inl e
                     | Inr new_candidates \<Rightarrow>
                         let st2 = st1\<lparr>st_candidates := new_candidates\<rparr>
                         in if length new_candidates = 0 then Inr st2
                            else play_loop ops secret all_words rest st2)))"

definition initial_state :: "string list \<Rightarrow> game_state" where
  "initial_state all_words =
     \<lparr>st_candidates = all_words, st_guesses = [], st_feedbacks = [], st_won = False\<rparr>"

definition play_optimal_game ::
  "('f::linorder) float_ops \<Rightarrow> string \<Rightarrow> string list \<Rightarrow> int \<Rightarrow> py_error + trajectory" where
  "play_optimal_game ops secret all_words max_guesses =
     (case play_loop ops secret all_words [0..<nat max_guesses] (initial_state all_words) of
        Inl e \<Rightarrow> Inl e
      | Inr st \<Rightarrow>
          Inr \<lparr>traj_secret = secret, traj_guesses = st_guesses st,
               traj_feedbacks = st_feedbacks st, traj_won = st_won st,
               traj_num_guesses = length (st_guesses st)\<rparr>)"

section \<open>Facts about loops, counters and tile states\<close>

lemma tile_distinct [simp]:
  "CORRECT \<noteq> PRESENT" "PRESENT \<noteq> CORRECT" "CORRECT \<noteq> ABSENT" "ABSENT \<noteq> CORRECT"
  "PRESENT \<noteq> ABSENT" "ABSENT \<noteq> PRESENT"
  by (simp_all add: CORRECT_def PRESENT_def ABSENT_def)

lemma for_loop_append:
  "for_loop body (xs @ ys) s =
     (case for_loop body xs s of Inl e \<Rightarrow> Inl e | Inr s' \<Rightarrow> for_loop body ys s')"
  by (induction xs arbitrary: s) (auto split: sum.splits)

lemma for_loop_cong:
  "(\<And>x s. x \<in> set xs \<Longrightarrow> body x s = body' x s) \<Longrightarrow> for_loop body xs s = for_loop body' xs s"
  by (induction xs arbitrary: s) (auto split: sum.splits)

lemma for_loop_upt_invariant:
  assumes init: "I 0 s0"
    and step: "\<And>i s. i < n \<Longrightarrow> I i s \<Longrightarrow> \<exists>s'. body i s = Inr s' \<and> I (Suc i) s'"
  shows "\<exists>s. for_loop body [0..<n] s0 = Inr s \<and> I n s"
proof -
  have "k \<le> n \<Longrightarrow> \<exists>s. for_loop body [0..<k] s0 = Inr s \<and> I k s" for k
  proof (induction k)
    case 0
    then show ?case using init by simp
  next
    case (Suc k)
    then obtain s where s: "for_loop body [0..<k] s0 = Inr s" "I k s" by auto
    from Suc.prems have "k < n" by simp
    from step [OF this s(2)] obtain s' where "body k s = Inr s'" "I (Suc k) s'" by blast
    with s show ?case by (simp add: for_loop_append)
  qed
  then show ?thesis by blast
qed

lemma counter_get_fold:
  "counter_get (fold (\<lambda>k m. m(k \<mapsto> counter_get m k + 1)) s m0) L
     = counter_get m0 L + int (count_list s L)"
  by (induction s arbitrary: m0) (auto simp: counter_get_def)

lemma counter_get_Counter: "counter_get (Counter s) L = int (count_list s L)"
  by (simp add: Counter_def counter_get_fold) (simp add: counter_get_def)

lemma counter_get_dec:
  "counter_get (counter_dec m k) L = (if L = k then counter_get m k - 1 else counter_get m L)"
  by (simp add: counter_dec_def counter_get_def)

lemma counter_get_None: "m k = None \<Longrightarrow> counter_get m k = 0"
  by (simp add: counter_get_def)

lemma count_list_card: "count_list xs x = card {i. i < length xs \<and> xs ! i = x}"
  by (simp add: count_list_eq_length_filter length_filter_conv_card eq_commute)

section \<open>The two passes of the oracle\<close>

lemma first_pass_result:
  assumes len: "length secret \<le> length guess"
  shows "\<exists>fb cnt. for_loop (first_pass_body guess secret) [0..<length secret]
            (replicate (length secret) ABSENT, Counter secret) = Inr (fb, cnt)
          \<and> length fb = length secret
          \<and> (\<forall>i<length secret. fb ! i = (if guess ! i = secret ! i then CORRECT else ABSENT))
          \<and> (\<forall>L. counter_get cnt L = int (count_list secret L)
                 - int (card {i. i < length secret \<and> guess ! i = L \<and> secret ! i = L}))"
proof -
  let ?n = "length secret"
  let ?I = "\<lambda>k st. case st of (fb, cnt) \<Rightarrow> length fb = ?n
          \<and> (\<forall>i<?n. fb ! i = (if i < k \<and> guess ! i = secret ! i then CORRECT else ABSENT))
          \<and> (\<forall>L. counter_get cnt L = int (count_list secret L)
                 - int (card {i. i < k \<and> guess ! i = L \<and> secret ! i = L}))"
  have init: "?I 0 (replicate ?n ABSENT, Counter secret)"
    by (simp add: counter_get_Counter)
  have step: "\<exists>s'. first_pass_body guess secret i s = Inr s' \<and> ?I (Suc i) s'"
    if "i < ?n" "?I i s" for i s
  proof -
    obtain fb cnt where s: "s = (fb, cnt)" by (cases s)
    from that s have fb: "length fb = ?n"
      and tiles: "\<forall>j<?n. fb ! j = (if j < i \<and> guess ! j = secret ! j then CORRECT else ABSENT)"
      and cnt: "\<forall>L. counter_get cnt L = int (count_list secret L)
                 - int (card {j. j < i \<and> guess ! j = L \<and> secret ! j = L})"
      by auto
    have fin: "finite {j. j < i \<and> guess ! j = L \<and> secret ! j = L}" for L by simp
    show ?thesis
    proof (cases "guess ! i = secret ! i")
      case False
      have "{j. j < Suc i \<and> guess ! j = L \<and> secret ! j = L}
            = {j. j < i \<and> guess ! j = L \<and> secret ! j = L}" for L
        using False by (auto simp: less_Suc_eq)
      with False that(1) len fb tiles cnt show ?thesis
        by (auto simp: first_pass_body_def s less_Suc_eq)
    next
      case True
      have set_eq: "{j. j < Suc i \<and> guess ! j = L \<and> secret ! j = L}
            = (if L = guess ! i then insert i {j. j < i \<and> guess ! j = L \<and> secret ! j = L}
               else {j. j < i \<and> guess ! j = L \<and> secret ! j = L})" for L
        using True by (auto simp: less_Suc_eq)
      have card_eq: "int (card {j. j < Suc i \<and> guess ! j = L \<and> secret ! j = L})
            = (if L = guess ! i then 1 else 0)
              + int (card {j. j < i \<and> guess ! j = L \<and> secret ! j = L})" for L
        by (simp add: set_eq)
      have body: "first_pass_body guess secret i s
                  = Inr (fb[i := CORRECT], counter_dec cnt (guess ! i))"
        using True that(1) len fb by (simp add: first_pass_body_def s)
      have t': "\<forall>j<?n. fb[i := CORRECT] ! j
                 = (if j < Suc i \<and> guess ! j = secret ! j then CORRECT else ABSENT)"
        using True that(1) fb tiles by (auto simp: nth_list_update less_Suc_eq)
      have c': "\<forall>L. counter_get (counter_dec cnt (guess ! i)) L = int (count_list secret L)
                 - int (card {j. j < Suc i \<and> guess ! j = L \<and> secret ! j = L})"
        using cnt by (simp add: counter_get_dec card_eq)
      have "?I (Suc i) (fb[i := CORRECT], counter_dec cnt (guess ! i))"
        using fb t' c' by simp
      with body show ?thesis by blast
    qed
  qed
  from for_loop_upt_invariant [where I = ?I and body = "first_pass_body guess secret", OF init step]
  obtain s where s: "for_loop (first_pass_body guess secret) [0..<?n]
        (replicate ?n ABSENT, Counter secret) = Inr s" "?I ?n s"
    by blast
  obtain fb cnt where "s = (fb, cnt)" by (cases s)
  with s show ?thesis by auto
qed

lemma second_pass_result:
  assumes len: "n \<le> length guess"
    and fb0: "length fb0 = n"
    and corr0: "\<forall>i<n. fb0 ! i = (if guess ! i = secret ! i then CORRECT else ABSENT)"
    and cnt0: "\<forall>L. 0 \<le> counter_get cnt0 L \<and>
          int (card {i. i < n \<and> guess ! i = L \<and> fb0 ! i \<noteq> ABSENT}) + counter_get cnt0 L = tot L"
  shows "\<exists>fb cnt. for_loop (second_pass_body guess) [0..<n] (fb0, cnt0) = Inr (fb, cnt)
          \<and> length fb = n
          \<and> (\<forall>i<n. (fb ! i = CORRECT \<longleftrightarrow> guess ! i = secret ! i)
                  \<and> (fb ! i = CORRECT \<or> fb ! i = PRESENT \<or> fb ! i = ABSENT))
          \<and> (\<forall>L. 0 \<le> counter_get cnt L \<and>
                int (card {i. i < n \<and> guess ! i = L \<and> fb ! i \<noteq> ABSENT}) + counter_get cnt L = tot L)"
proof -
  let ?I = "\<lambda>k st. case st of (fb, cnt) \<Rightarrow> length fb = n
          \<and> (\<forall>i<n. (fb ! i = CORRECT \<longleftrightarrow> guess ! i = secret ! i)
                  \<and> (fb ! i = CORRECT \<or> fb ! i = PRESENT \<or> fb ! i = ABSENT))
          \<and> (\<forall>i<n. k \<le> i \<longrightarrow> fb ! i \<noteq> PRESENT)
          \<and> (\<forall>L. 0 \<le> counter_get cnt L \<and>
                int (card {i. i < n \<and> guess ! i = L \<and> fb ! i \<noteq> ABSENT}) + counter_get cnt L = tot L)"
  have init: "?I 0 (fb0, cnt0)"
    using fb0 corr0 cnt0 by simp
  have step: "\<exists>s'. second_pass_body guess i s = Inr s' \<and> ?I (Suc i) s'"
    if "i < n" "?I i s" for i s
  proof -
    obtain fb cnt where s: "s = (fb, cnt)" by (cases s)
    from that s have fb: "length fb = n"
      and corr: "\<forall>j<n. (fb ! j = CORRECT \<longleftrightarrow> guess ! j = secret ! j)"
      and valid: "\<forall>j<n. fb ! j = CORRECT \<or> fb ! j = PRESENT \<or> fb ! j = ABSENT"
      and later: "\<forall>j<n. i \<le> j \<longrightarrow> fb ! j \<noteq> PRESENT"
      and cnt: "\<forall>L. 0 \<le> counter_get cnt L \<and>
                int (card {j. j < n \<and> guess ! j = L \<and> fb ! j \<noteq> ABSENT}) + counter_get cnt L = tot L"
      by auto
    have keep: "?I (Suc i) (fb, cnt)"
      using fb corr valid later cnt by simp
    show ?thesis
    proof (cases "fb ! i \<noteq> CORRECT \<and> cnt (guess ! i) \<noteq> None \<and> 0 < counter_get cnt (guess ! i)")
      case False
      then have "second_pass_body guess i s = Inr (fb, cnt)"
        using that(1) len fb by (auto simp: second_pass_body_def s)
      with keep show ?thesis by blast
    next
      case True
      then have body: "second_pass_body guess i s
            = Inr (fb[i := PRESENT], counter_dec cnt (guess ! i))"
        using that(1) len fb by (simp add: second_pass_body_def s)
      from True valid later that(1) have absent: "fb ! i = ABSENT" by blast
      let ?fb = "fb[i := PRESENT]"
      have c1: "\<forall>j<n. (?fb ! j = CORRECT \<longleftrightarrow> guess ! j = secret ! j)
                  \<and> (?fb ! j = CORRECT \<or> ?fb ! j = PRESENT \<or> ?fb ! j = ABSENT)"
        using corr valid True fb that(1) by (auto simp: nth_list_update)
      have c2: "\<forall>j<n. Suc i \<le> j \<longrightarrow> ?fb ! j \<noteq> PRESENT"
        using later fb that(1) by (auto simp: nth_list_update)
      have set_eq: "{j. j < n \<and> guess ! j = L \<and> ?fb ! j \<noteq> ABSENT}
            = (if L = guess ! i then insert i {j. j < n \<and> guess ! j = L \<and> fb ! j \<noteq> ABSENT}
               else {j. j < n \<and> guess ! j = L \<and> fb ! j \<noteq> ABSENT})" for L
        using that(1) fb by (auto simp: nth_list_update)
      have card_eq: "int (card {j. j < n \<and> guess ! j = L \<and> ?fb ! j \<noteq> ABSENT})
            = (if L = guess ! i then 1 else 0)
              + int (card {j. j < n \<and> guess ! j = L \<and> fb ! j \<noteq> ABSENT})" for L
        using absent by (simp add: set_eq)
      have c3: "\<forall>L. 0 \<le> counter_get (counter_dec cnt (guess ! i)) L \<and>
                int (card {j. j < n \<and> guess ! j = L \<and> ?fb ! j \<noteq> ABSENT})
                  + counter_get (counter_dec cnt (guess ! i)) L = tot L"
      proof
        fix L
        from cnt have "0 \<le> counter_get cnt L"
          "int (card {j. j < n \<and> guess ! j = L \<and> fb ! j \<noteq> ABSENT}) + counter_get cnt L = tot L"
          by auto
        with True show "0 \<le> counter_get (counter_dec cnt (guess ! i)) L \<and>
                int (card {j. j < n \<and> guess ! j = L \<and> ?fb ! j \<noteq> ABSENT})
                  + counter_get (counter_dec cnt (guess ! i)) L = tot L"
          by (auto simp: counter_get_dec card_eq)
      qed
      have c0: "length ?fb = n" using fb by simp
      have "?I (Suc i) (?fb, counter_dec cnt (guess ! i))"
        unfolding prod.case using c0 c1 c2 c3 by blast
      with body show ?thesis by blast
    qed
  qed
  from for_loop_upt_invariant [where I = ?I and body = "second_pass_body guess", OF init step]
  obtain s where s: "for_loop (second_pass_body guess) [0..<n] (fb0, cnt0) = Inr s" "?I n s"
    by blast
  obtain fb cnt where "s = (fb, cnt)" by (cases s)
  with s show ?thesis by auto
qed

lemma oracle_result:
  assumes len: "length secret \<le> length guess"
  shows "\<exists>fb. generate_feedback guess secret = Inr fb
          \<and> length fb = length secret
          \<and> (\<forall>i<length secret. (fb ! i = CORRECT \<longleftrightarrow> guess ! i = secret ! i)
                  \<and> (fb ! i = CORRECT \<or> fb ! i = PRESENT \<or> fb ! i = ABSENT))
          \<and> (\<forall>L. card {i. i < length secret \<and> guess ! i = L \<and> fb ! i \<noteq> ABSENT}
                 \<le> count_list secret L)"
proof -
  let ?n = "length secret"
  from first_pass_result [OF len] obtain fb1 cnt1 where
    p1: "for_loop (first_pass_body guess secret) [0..<?n]
            (replicate ?n ABSENT, Counter secret) = Inr (fb1, cnt1)"
    and fb1: "length fb1 = ?n"
    and t1: "\<forall>i<?n. fb1 ! i = (if guess ! i = secret ! i then CORRECT else ABSENT)"
    and c1: "\<forall>L. counter_get cnt1 L = int (count_list secret L)
                 - int (card {i. i < ?n \<and> guess ! i = L \<and> secret ! i = L})"
    by blast
  have set1: "{i. i < ?n \<and> guess ! i = L \<and> fb1 ! i \<noteq> ABSENT}
              = {i. i < ?n \<and> guess ! i = L \<and> secret ! i = L}" for L
    using t1 by (auto split: if_splits)
  have le: "card {i. i < ?n \<and> guess ! i = L \<and> secret ! i = L} \<le> count_list secret L" for L
    unfolding count_list_card by (rule card_mono) auto
  have start: "\<forall>L. 0 \<le> counter_get cnt1 L \<and>
          int (card {i. i < ?n \<and> guess ! i = L \<and> fb1 ! i \<noteq> ABSENT}) + counter_get cnt1 L
            = int (count_list secret L)"
    using c1 le by (simp add: set1)
  from second_pass_result [OF len fb1 t1 start] obtain fb cnt where
    p2: "for_loop (second_pass_body guess) [0..<?n] (fb1, cnt1) = Inr (fb, cnt)"
    and r: "length fb = ?n"
      "\<forall>i<?n. (fb ! i = CORRECT \<longleftrightarrow> guess ! i = secret ! i)
                  \<and> (fb ! i = CORRECT \<or> fb ! i = PRESENT \<or> fb ! i = ABSENT)"
    and c: "\<forall>L. 0 \<le> counter_get cnt L \<and>
                int (card {i. i < ?n \<and> guess ! i = L \<and> fb ! i \<noteq> ABSENT}) + counter_get cnt L
                  = int (count_list secret L)"
    by blast
  have gf: "generate_feedback guess secret = Inr fb"
    by (simp add: generate_feedback_def p1 p2)
  have "card {i. i < ?n \<and> guess ! i = L \<and> fb ! i \<noteq> ABSENT} \<le> count_list secret L" for L
  proof -
    from c have "0 \<le> counter_get cnt L"
      "int (card {i. i < ?n \<and> guess ! i = L \<and> fb ! i \<noteq> ABSENT}) + counter_get cnt L
                  = int (count_list secret L)" by auto
    then show ?thesis by linarith
  qed
  with gf r show ?thesis by blast
qed

lemma quick_first_pass_body_eq: "quick_first_pass_body = first_pass_body"
  by (simp add: fun_eq_iff quick_first_pass_body_def first_pass_body_def CORRECT_def)

lemma quick_second_pass_body_eq: "quick_second_pass_body = second_pass_body"
  by (auto simp: fun_eq_iff quick_second_pass_body_def second_pass_body_def CORRECT_def
      PRESENT_def counter_get_None)

lemma py_error_unique: "(e::py_error) = IndexError"
  by (cases e)

lemma quick_generate_feedback_eq:
  assumes "length guess = length secret"
  shows "quick_generate_feedback guess secret = generate_feedback guess secret"
  unfolding quick_generate_feedback_def generate_feedback_def Let_def quick_first_pass_body_eq
    quick_second_pass_body_eq ABSENT_def assms ..

lemma first_pass_short_guess:
  assumes "length guess < length secret"
  shows "for_loop (first_pass_body guess secret) [0..<length secret] (fb0, cnt0) = Inl IndexError"
proof -
  let ?g = "length guess"
  have split: "[0..<length secret] = [0..<?g] @ ?g # [Suc ?g..<length secret]"
  proof -
    have "[0..<length secret] = [0..<?g] @ [?g..<length secret]"
      using assms upt_add_eq_append [of 0 ?g "length secret - ?g"] by simp
    moreover have "[?g..<length secret] = ?g # [Suc ?g..<length secret]"
      using assms by (simp add: upt_conv_Cons)
    ultimately show ?thesis by simp
  qed
  have fail: "first_pass_body guess secret ?g s = Inl IndexError" for s
    by (simp add: first_pass_body_def split: prod.splits)
  show ?thesis
    unfolding split by (simp add: for_loop_append fail py_error_unique split: sum.splits)
qed

lemma generate_feedback_short_guess:
  "length guess < length secret \<Longrightarrow> generate_feedback guess secret = Inl IndexError"
  by (simp add: generate_feedback_def first_pass_short_guess)

lemma generate_feedback_truncates:
  assumes "length secret \<le> length guess"
  shows "generate_feedback guess secret = generate_feedback (take (length secret) guess) secret"
proof -
  have b1: "first_pass_body guess secret i s = first_pass_body (take (length secret) guess) secret i s"
    if "i \<in> set [0..<length secret]" for i s
    using that assms by (cases s) (simp add: first_pass_body_def)
  have b2: "second_pass_body guess i s = second_pass_body (take (length secret) guess) i s"
    if "i \<in> set [0..<length secret]" for i s
    using that assms by (cases s) (simp add: second_pass_body_def)
  have e1: "for_loop (first_pass_body guess secret) [0..<length secret] s
            = for_loop (first_pass_body (take (length secret) guess) secret) [0..<length secret] s"
    for s by (rule for_loop_cong) (rule b1)
  have e2: "for_loop (second_pass_body guess) [0..<length secret] s
            = for_loop (second_pass_body (take (length secret) guess)) [0..<length secret] s"
    for s by (rule for_loop_cong) (rule b2)
  show ?thesis
    unfolding generate_feedback_def Let_def e1 e2 ..
qed

section \<open>Claims about the feedback oracle\<close>

text \<open>
  C1, as stated, fails: a guess longer than the secret raises nothing. The oracle scores the
  six-letter guess \<open>crates\<close> against the five-letter secret \<open>crate\<close> as five correct
  tiles, ignoring the sixth letter.
\<close>

theorem C1_silent_truncation_counterexample:
  "length ''crates'' \<noteq> length ''crate'' \<and>
   generate_feedback ''crates'' ''crate'' = Inr [CORRECT, CORRECT, CORRECT, CORRECT, CORRECT]"
  by code_simp

text \<open>
  C1 (amended): a guess shorter than the secret makes \<open>generate_feedback\<close> raise
  \<open>IndexError\<close>; a guess longer than the secret raises nothing: the result is a pattern of
  the secret's length, the one the oracle gives for the guess cut to the secret's length.
\<close>

theorem C1_length_mismatch:
  "(length guess < length secret \<longrightarrow> generate_feedback guess secret = Inl IndexError) \<and>
   (length secret < length guess \<longrightarrow>
      (\<exists>fb. generate_feedback guess secret = Inr fb \<and> length fb = length secret) \<and>
      generate_feedback guess secret = generate_feedback (take (length secret) guess) secret)"
proof (intro conjI impI)
  assume "length guess < length secret"
  then show "generate_feedback guess secret = Inl IndexError"
    by (rule generate_feedback_short_guess)
next
  assume "length secret < length guess"
  then have le: "length secret \<le> length guess" by simp
  from oracle_result [OF le]
  show "\<exists>fb. generate_feedback guess secret = Inr fb \<and> length fb = length secret" by blast
  from le show "generate_feedback guess secret
      = generate_feedback (take (length secret) guess) secret"
    by (rule generate_feedback_truncates)
qed

text \<open>The amended C1 at the words \<open>ab\<close> and \<open>abc\<close>, in both roles.\<close>

theorem C1_length_mismatch_witness:
  "(length ''ab'' < length ''abc'' \<and> generate_feedback ''ab'' ''abc'' = Inl IndexError) \<and>
   (length ''ab'' < length ''abc'' \<and>
      (\<exists>fb. generate_feedback ''abc'' ''ab'' = Inr fb \<and> length fb = length ''ab'') \<and>
      generate_feedback ''abc'' ''ab'' = generate_feedback (take (length ''ab'') ''abc'') ''ab'')"
proof -
  have short: "length ''ab'' < length ''abc''" by simp
  from short C1_length_mismatch [of "''ab''" "''abc''"] C1_length_mismatch [of "''abc''" "''ab''"]
  show ?thesis by blast
qed

text \<open>
  C2: for equal-length \<open>guess\<close> and \<open>secret\<close> both oracles return the same pattern, and
  for every letter \<open>L\<close> the number of positions of the guess that hold \<open>L\<close> and are marked
  correct or present is at most the number of occurrences of \<open>L\<close> in the secret.
\<close>

theorem C2_marked_tiles_bounded:
  assumes "length guess = length secret"
  shows "\<exists>fb. generate_feedback guess secret = Inr fb \<and>
           quick_generate_feedback guess secret = Inr fb \<and>
           (\<forall>L. card {i. i < length guess \<and> guess ! i = L \<and> (fb ! i = CORRECT \<or> fb ! i = PRESENT)}
                  \<le> count_list secret L)"
proof -
  from assms have le: "length secret \<le> length guess" by simp
  from oracle_result [OF le] obtain fb where
    gf: "generate_feedback guess secret = Inr fb"
    and valid: "\<forall>i<length secret. (fb ! i = CORRECT \<longleftrightarrow> guess ! i = secret ! i)
                  \<and> (fb ! i = CORRECT \<or> fb ! i = PRESENT \<or> fb ! i = ABSENT)"
    and bound: "\<forall>L. card {i. i < length secret \<and> guess ! i = L \<and> fb ! i \<noteq> ABSENT}
                 \<le> count_list secret L"
    by blast
  have "{i. i < length guess \<and> guess ! i = L \<and> (fb ! i = CORRECT \<or> fb ! i = PRESENT)}
        = {i. i < length secret \<and> guess ! i = L \<and> fb ! i \<noteq> ABSENT}" for L
    using valid assms by auto
  with bound gf quick_generate_feedback_eq [OF assms] show ?thesis by simp
qed

text \<open>C2 at the guess \<open>speed\<close> and the secret \<open>abide\<close>.\<close>

theorem C2_marked_tiles_bounded_witness:
  "length ''speed'' = length ''abide'' \<and>
   (\<exists>fb. generate_feedback ''speed'' ''abide'' = Inr fb \<and>
           quick_generate_feedback ''speed'' ''abide'' = Inr fb \<and>
           (\<forall>L. card {i. i < length ''speed'' \<and> ''speed'' ! i = L
                        \<and> (fb ! i = CORRECT \<or> fb ! i = PRESENT)}
                  \<le> count_list ''abide'' L))"
  using C2_marked_tiles_bounded [of "''speed''" "''abide''"] by simp

text \<open>
  C7: for equal-length \<open>guess\<close> and \<open>secret\<close> the number of tiles marked correct is the
  number of positions where the two words agree; and \<open>generate_feedback(secret, secret)\<close>
  is all correct.
\<close>

theorem C7_correct_tiles:
  "(length guess = length secret \<longrightarrow>
      (\<exists>fb. generate_feedback guess secret = Inr fb \<and>
            count_list fb CORRECT = card {i. i < length secret \<and> guess ! i = secret ! i})) \<and>
   generate_feedback secret secret = Inr (replicate (length secret) CORRECT)"
proof (intro conjI impI)
  assume eq: "length guess = length secret"
  then have le: "length secret \<le> length guess" by simp
  from oracle_result [OF le] obtain fb where
    gf: "generate_feedback guess secret = Inr fb"
    and len: "length fb = length secret"
    and valid: "\<forall>i<length secret. (fb ! i = CORRECT \<longleftrightarrow> guess ! i = secret ! i)
                  \<and> (fb ! i = CORRECT \<or> fb ! i = PRESENT \<or> fb ! i = ABSENT)"
    by blast
  have "{i. i < length fb \<and> fb ! i = CORRECT} = {i. i < length secret \<and> guess ! i = secret ! i}"
    using valid len by auto
  then have "count_list fb CORRECT = card {i. i < length secret \<and> guess ! i = secret ! i}"
    by (simp add: count_list_card)
  with gf show "\<exists>fb. generate_feedback guess secret = Inr fb \<and>
            count_list fb CORRECT = card {i. i < length secret \<and> guess ! i = secret ! i}"
    by blast
next
  from oracle_result [of secret secret] obtain fb where
    gf: "generate_feedback secret secret = Inr fb"
    and len: "length fb = length secret"
    and valid: "\<forall>i<length secret. (fb ! i = CORRECT \<longleftrightarrow> secret ! i = secret ! i)
                  \<and> (fb ! i = CORRECT \<or> fb ! i = PRESENT \<or> fb ! i = ABSENT)"
    by blast
  have "fb = replicate (length secret) CORRECT"
    using len valid by (simp add: list_eq_iff_nth_eq)
  with gf show "generate_feedback secret secret = Inr (replicate (length secret) CORRECT)"
    by simp
qed

text \<open>C7 at the guess \<open>aabb\<close> and the secret \<open>abab\<close>.\<close>

theorem C7_correct_tiles_witness:
  "length ''aabb'' = length ''abab'' \<and>
   (\<exists>fb. generate_feedback ''aabb'' ''abab'' = Inr fb \<and>
         count_list fb CORRECT = card {i. i < length ''abab'' \<and> ''aabb'' ! i = ''abab'' ! i})"
  using C7_correct_tiles [of "''aabb''" "''abab''"] by simp

text \<open>
  C9: on equal-length words the oracle of generate\_quick\_trajectories.py returns what the
  oracle of generate\_optimal\_trajectories.py returns.
\<close>

theorem C9_oracles_agree:
  "length guess = length secret \<Longrightarrow>
     quick_generate_feedback guess secret = generate_feedback guess secret"
  by (rule quick_generate_feedback_eq)

text \<open>C9 at the guess \<open>speed\<close> and the secret \<open>abide\<close>.\<close>

theorem C9_oracles_agree_witness:
  "length ''speed'' = length ''abide'' \<and>
   quick_generate_feedback ''speed'' ''abide'' = generate_feedback ''speed'' ''abide''"
  using C9_oracles_agree [of "''speed''" "''abide''"] by simp

section \<open>The candidate filter as a list filter\<close>

lemma filter_body_Inl:
  "generate_feedback guess w = Inl e \<Longrightarrow> filter_body guess feedback w acc = Inl e"
  by (simp add: filter_body_def)

lemma filter_body_Inr:
  "generate_feedback guess w = Inr fb \<Longrightarrow>
     filter_body guess feedback w acc = Inr (if fb = feedback then acc @ [w] else acc)"
  by (simp add: filter_body_def)

lemma filter_loop_Inr:
  "for_loop (filter_body guess feedback) ws acc = Inr p \<Longrightarrow>
     p = acc @ filter (\<lambda>w. generate_feedback guess w = Inr feedback) ws \<and>
     (\<forall>w\<in>set ws. \<exists>fb. generate_feedback guess w = Inr fb)"
proof (induction ws arbitrary: acc)
  case Nil
  then show ?case by simp
next
  case (Cons w ws)
  show ?case
  proof (cases "generate_feedback guess w")
    case (Inl e)
    with Cons.prems show ?thesis by (simp add: filter_body_Inl)
  next
    case (Inr fb)
    with Cons.prems have
      "for_loop (filter_body guess feedback) ws (if fb = feedback then acc @ [w] else acc) = Inr p"
      by (simp add: filter_body_Inr)
    from Cons.IH [OF this] Inr show ?thesis by auto
  qed
qed

lemma filter_loop_total:
  "\<forall>w\<in>set ws. \<exists>fb. generate_feedback guess w = Inr fb \<Longrightarrow>
     for_loop (filter_body guess feedback) ws acc
       = Inr (acc @ filter (\<lambda>w. generate_feedback guess w = Inr feedback) ws)"
proof (induction ws arbitrary: acc)
  case Nil
  then show ?case by simp
next
  case (Cons w ws)
  then obtain fb where fb: "generate_feedback guess w = Inr fb" by auto
  from Cons.prems have rest: "\<forall>w\<in>set ws. \<exists>fb. generate_feedback guess w = Inr fb" by simp
  show ?case
    using fb Cons.IH [OF rest] by (simp add: filter_body_Inr)
qed

lemma apply_feedback_Inr:
  "apply_feedback_to_candidates pool guess feedback = Inr p \<Longrightarrow>
     p = filter (\<lambda>w. generate_feedback guess w = Inr feedback) pool \<and>
     (\<forall>w\<in>set pool. \<exists>fb. generate_feedback guess w = Inr fb)"
  unfolding apply_feedback_to_candidates_def by (drule filter_loop_Inr) simp

lemma apply_feedback_total:
  "\<forall>w\<in>set pool. \<exists>fb. generate_feedback guess w = Inr fb \<Longrightarrow>
     apply_feedback_to_candidates pool guess feedback
       = Inr (filter (\<lambda>w. generate_feedback guess w = Inr feedback) pool)"
  unfolding apply_feedback_to_candidates_def by (simp add: filter_loop_total)

lemma generate_feedback_returns:
  "length secret \<le> length guess \<Longrightarrow> \<exists>fb. generate_feedback guess secret = Inr fb"
  using oracle_result [of secret guess] by blast

lemma apply_feedback_returns:
  "\<forall>w\<in>set pool. length w \<le> length guess \<Longrightarrow>
     apply_feedback_to_candidates pool guess feedback
       = Inr (filter (\<lambda>w. generate_feedback guess w = Inr feedback) pool)"
  by (rule apply_feedback_total) (simp add: generate_feedback_returns)

lemma count_list_filter_le: "count_list (filter P xs) w \<le> count_list xs w"
  by (induction xs) auto

section \<open>Claims about the candidate filter\<close>

text \<open>
  C8: filtering a second time with the same guess and pattern changes nothing (when the
  first call raises, so does the composition), the filtered pool is never longer than the
  pool, and the filter returns whenever no word of the pool is longer than the guess.
\<close>

theorem C8_filter_idempotent_shrinking:
  "(case apply_feedback_to_candidates pool g f of
      Inl e \<Rightarrow> Inl e
    | Inr p \<Rightarrow> apply_feedback_to_candidates p g f) = apply_feedback_to_candidates pool g f \<and>
   (\<forall>p. apply_feedback_to_candidates pool g f = Inr p \<longrightarrow> length p \<le> length pool) \<and>
   ((\<forall>w\<in>set pool. length w \<le> length g) \<longrightarrow> (\<exists>p. apply_feedback_to_candidates pool g f = Inr p))"
proof (intro conjI allI impI)
  show "(case apply_feedback_to_candidates pool g f of
      Inl e \<Rightarrow> Inl e
    | Inr p \<Rightarrow> apply_feedback_to_candidates p g f) = apply_feedback_to_candidates pool g f"
  proof (cases "apply_feedback_to_candidates pool g f")
    case (Inl e)
    then show ?thesis by simp
  next
    case (Inr p)
    from apply_feedback_Inr [OF Inr]
    have p: "p = filter (\<lambda>w. generate_feedback g w = Inr f) pool" by simp
    then have "\<forall>w\<in>set p. \<exists>fb. generate_feedback g w = Inr fb" by auto
    from apply_feedback_total [OF this, of f] p
    have "apply_feedback_to_candidates p g f = Inr p" by simp
    with Inr show ?thesis by simp
  qed
next
  fix p assume "apply_feedback_to_candidates pool g f = Inr p"
  from apply_feedback_Inr [OF this] show "length p \<le> length pool" by simp
next
  assume "\<forall>w\<in>set pool. length w \<le> length g"
  from apply_feedback_returns [OF this] show "\<exists>p. apply_feedback_to_candidates pool g f = Inr p"
    by blast
qed

text \<open>C8 on a pool of four two-letter words, one of them twice.\<close>

theorem C8_filter_idempotent_shrinking_witness:
  "apply_feedback_to_candidates [''ab'', ''ba'', ''cd'', ''ab''] ''ab'' [CORRECT, CORRECT]
     = Inr [''ab'', ''ab''] \<and>
   apply_feedback_to_candidates [''ab'', ''ab''] ''ab'' [CORRECT, CORRECT] = Inr [''ab'', ''ab''] \<and>
   length [''ab'', ''ab''] \<le> length [''ab'', ''ba'', ''cd'', ''ab'']"
proof -
  have r: "apply_feedback_to_candidates [''ab'', ''ba'', ''cd'', ''ab''] ''ab'' [CORRECT, CORRECT]
     = Inr [''ab'', ''ab'']" by code_simp
  from C8_filter_idempotent_shrinking
    [where pool = "[''ab'', ''ba'', ''cd'', ''ab'']" and g = "''ab''" and f = "[CORRECT, CORRECT]"] r
  show ?thesis by simp
qed

text \<open>
  C10: whatever \<open>apply_feedback_to_candidates\<close> returns is a subsequence of the pool: the
  words whose feedback against the guess is the pattern, in the pool's order, none of them
  more often than in the pool; and it returns whenever no word of the pool is longer than
  the guess.
\<close>

theorem C10_filter_subsequence:
  "(\<forall>p. apply_feedback_to_candidates pool guess pattern = Inr p \<longrightarrow>
        subseq p pool \<and> p = filter (\<lambda>w. generate_feedback guess w = Inr pattern) pool \<and>
        (\<forall>w. count_list p w \<le> count_list pool w)) \<and>
   ((\<forall>w\<in>set pool. length w \<le> length guess) \<longrightarrow>
        (\<exists>p. apply_feedback_to_candidates pool guess pattern = Inr p))"
proof (intro conjI allI impI)
  fix p w assume r: "apply_feedback_to_candidates pool guess pattern = Inr p"
  from apply_feedback_Inr [OF r]
  show p: "p = filter (\<lambda>w. generate_feedback guess w = Inr pattern) pool" by simp
  then show "subseq p pool" by simp
  from p show "count_list p w \<le> count_list pool w"
    by (simp add: count_list_filter_le)
next
  assume "\<forall>w\<in>set pool. length w \<le> length guess"
  from apply_feedback_returns [OF this]
  show "\<exists>p. apply_feedback_to_candidates pool guess pattern = Inr p" by blast
qed

text \<open>C10 on the same pool: the duplicate survives twice, in place.\<close>

theorem C10_filter_subsequence_witness:
  "apply_feedback_to_candidates [''ab'', ''ba'', ''cd'', ''ab''] ''ab'' [CORRECT, CORRECT]
     = Inr [''ab'', ''ab''] \<and>
   subseq [''ab'', ''ab''] [''ab'', ''ba'', ''cd'', ''ab'']"
proof -
  have r: "apply_feedback_to_candidates [''ab'', ''ba'', ''cd'', ''ab''] ''ab'' [CORRECT, CORRECT]
     = Inr [''ab'', ''ab'']" by code_simp
  from C10_filter_subsequence
    [where pool = "[''ab'', ''ba'', ''cd'', ''ab'']" and guess = "''ab''"
       and pattern = "[CORRECT, CORRECT]"] r
  show ?thesis by simp
qed

section \<open>The buckets of the entropy evaluator\<close>

lemma count_body_Inr:
  "generate_feedback guess w = Inr fb \<Longrightarrow>
     count_body guess w pc = Inr (AList.update fb
        ((case map_of pc fb of None \<Rightarrow> 0 | Some c \<Rightarrow> c) + 1) pc)"
  by (simp add: count_body_def)

lemma sum_snd_update:
  "sum_list (map snd (AList.update k ((case map_of al k of None \<Rightarrow> 0 | Some c \<Rightarrow> c) + 1) al))
     = sum_list (map snd al) + (1::int)"
  by (induction al) auto

lemma count_loop_buckets:
  assumes "\<forall>w\<in>set ws. \<exists>fb. generate_feedback guess w = Inr fb"
  shows "\<exists>pc'. for_loop (count_body guess) ws pc = Inr pc' \<and>
           (distinct (map fst pc) \<longrightarrow> distinct (map fst pc')) \<and>
           sum_list (map snd pc') = sum_list (map snd pc) + int (length ws) \<and>
           (\<forall>fb. map_of pc' fb =
              (case map_of pc fb of
                 None \<Rightarrow> if count_list (map (generate_feedback guess) ws) (Inr fb) = 0 then None
                         else Some (int (count_list (map (generate_feedback guess) ws) (Inr fb)))
               | Some c \<Rightarrow> Some (c + int (count_list (map (generate_feedback guess) ws) (Inr fb)))))"
  using assms
proof (induction ws arbitrary: pc)
  case Nil
  then show ?case by (auto split: option.splits)
next
  case (Cons w ws)
  then obtain fb where fb: "generate_feedback guess w = Inr fb" by auto
  let ?v = "(case map_of pc fb of None \<Rightarrow> 0 | Some c \<Rightarrow> c) + 1"
  let ?pc = "AList.update fb ?v pc"
  from Cons.prems have rest: "\<forall>w\<in>set ws. \<exists>fb. generate_feedback guess w = Inr fb" by simp
  from Cons.IH [OF rest, of ?pc] obtain pc' where
    run: "for_loop (count_body guess) ws ?pc = Inr pc'"
    and d: "distinct (map fst ?pc) \<longrightarrow> distinct (map fst pc')"
    and s: "sum_list (map snd pc') = sum_list (map snd ?pc) + int (length ws)"
    and m: "\<forall>k. map_of pc' k =
              (case map_of ?pc k of
                 None \<Rightarrow> if count_list (map (generate_feedback guess) ws) (Inr k) = 0 then None
                         else Some (int (count_list (map (generate_feedback guess) ws) (Inr k)))
               | Some c \<Rightarrow> Some (c + int (count_list (map (generate_feedback guess) ws) (Inr k))))"
    by blast
  have run': "for_loop (count_body guess) (w # ws) pc = Inr pc'"
    using run by (simp add: count_body_Inr [OF fb])
  have d': "distinct (map fst pc) \<longrightarrow> distinct (map fst pc')"
    using d by (simp add: distinct_update)
  have s': "sum_list (map snd pc') = sum_list (map snd pc) + int (length (w # ws))"
    using s by (simp add: sum_snd_update)
  have m': "map_of pc' k =
              (case map_of pc k of
                 None \<Rightarrow> if count_list (map (generate_feedback guess) (w # ws)) (Inr k) = 0 then None
                         else Some (int (count_list (map (generate_feedback guess) (w # ws)) (Inr k)))
               | Some c \<Rightarrow> Some (c + int (count_list (map (generate_feedback guess) (w # ws)) (Inr k))))"
    for k
    using m [rule_format, of k] fb
    by (cases "k = fb") (auto simp: update_conv' split: option.splits)
  from run' d' s' m' show ?case by blast
qed

text \<open>The buckets after the counting loop, which starts from the empty dictionary.\<close>

lemma buckets:
  assumes "\<forall>w\<in>set ws. \<exists>fb. generate_feedback guess w = Inr fb"
  shows "\<exists>pc. for_loop (count_body guess) ws [] = Inr pc \<and>
           distinct (map fst pc) \<and>
           sum_list (map snd pc) = int (length ws) \<and>
           (\<forall>fb c. (fb, c) \<in> set pc \<longleftrightarrow>
               Inr fb \<in> generate_feedback guess ` set ws \<and>
               c = int (count_list (map (generate_feedback guess) ws) (Inr fb)))"
proof -
  let ?pats = "map (generate_feedback guess) ws"
  from count_loop_buckets [OF assms, of "[]"] obtain pc where
    run: "for_loop (count_body guess) ws [] = Inr pc"
    and d: "distinct (map fst pc)"
    and s: "sum_list (map snd pc) = int (length ws)"
    and m: "\<forall>fb. map_of pc fb =
              (if count_list ?pats (Inr fb) = 0 then None
               else Some (int (count_list ?pats (Inr fb))))"
    by auto
  have "(fb, c) \<in> set pc \<longleftrightarrow>
          Inr fb \<in> generate_feedback guess ` set ws \<and> c = int (count_list ?pats (Inr fb))"
    for fb c
  proof -
    have "(fb, c) \<in> set pc \<longleftrightarrow> map_of pc fb = Some c"
      using d by (auto intro: map_of_is_SomeI dest: map_of_SomeD)
    also have "\<dots> \<longleftrightarrow> count_list ?pats (Inr fb) \<noteq> 0 \<and> c = int (count_list ?pats (Inr fb))"
      using m by auto
    also have "count_list ?pats (Inr fb) \<noteq> 0 \<longleftrightarrow> Inr fb \<in> set ?pats"
      by (simp add: count_list_0_iff)
    finally show ?thesis by simp
  qed
  with run d s show ?thesis by blast
qed

section \<open>The entropy evaluator returns, and its result is not negative\<close>

lemma bucket_counts:
  assumes "\<forall>w\<in>set ws. \<exists>fb. generate_feedback guess w = Inr fb"
  shows "\<exists>pc. for_loop (count_body guess) ws [] = Inr pc \<and>
           (\<forall>c\<in>set (map snd pc). 0 < c \<and> c \<le> int (length ws))"
proof -
  let ?pats = "map (generate_feedback guess) ws"
  from buckets [OF assms] obtain pc where
    run: "for_loop (count_body guess) ws [] = Inr pc"
    and m: "\<forall>fb c. (fb, c) \<in> set pc \<longleftrightarrow>
               Inr fb \<in> generate_feedback guess ` set ws \<and> c = int (count_list ?pats (Inr fb))"
    by blast
  have "0 < c \<and> c \<le> int (length ws)" if "c \<in> set (map snd pc)" for c
  proof -
    from that obtain fb where "(fb, c) \<in> set pc" by auto
    with m have in_pats: "Inr fb \<in> set ?pats" and c: "c = int (count_list ?pats (Inr fb))"
      by auto
    from in_pats have "count_list ?pats (Inr fb) \<noteq> 0" by (simp only: count_list_0_iff not_not)
    then have "0 < count_list ?pats (Inr fb)" by simp
    moreover have "count_list ?pats (Inr fb) \<le> length ?pats" by (rule count_le_length)
    ultimately show ?thesis using c by simp
  qed
  with run show ?thesis by blast
qed

lemma calculate_entropy_returns:
  assumes "\<forall>w\<in>set candidates. length w \<le> length guess"
  shows "\<exists>e. calculate_entropy ops guess candidates = Inr e"
proof -
  from assms have "\<forall>w\<in>set candidates. \<exists>fb. generate_feedback guess w = Inr fb"
    by (simp add: generate_feedback_returns)
  from bucket_counts [OF this] obtain pc where
    "for_loop (count_body guess) candidates [] = Inr pc" by blast
  then show ?thesis by (simp add: calculate_entropy_def)
qed

lemma entropy_body_nonneg:
  assumes "float_signs ops (int n)" and "0 < c \<and> c \<le> int n" and "fl_zero ops \<le> acc"
  shows "fl_zero ops \<le> entropy_body ops n c acc"
proof -
  from assms(1,2) have "fl_mul ops (fl_div ops c (int n)) (fl_log2 ops (fl_div ops c (int n)))
      \<le> fl_zero ops"
    unfolding float_signs_def by blast
  with assms(1,3) have "fl_zero ops
      \<le> fl_sub ops acc (fl_mul ops (fl_div ops c (int n)) (fl_log2 ops (fl_div ops c (int n))))"
    unfolding float_signs_def by blast
  with assms(2) show ?thesis by (simp add: entropy_body_def Let_def)
qed

lemma entropy_fold_nonneg:
  "float_signs ops (int n) \<Longrightarrow> \<forall>c\<in>set cs. 0 < c \<and> c \<le> int n \<Longrightarrow> fl_zero ops \<le> acc \<Longrightarrow>
     fl_zero ops \<le> fold (entropy_body ops n) cs acc"
  by (induction cs arbitrary: acc) (simp_all add: entropy_body_nonneg)

lemma calculate_entropy_nonneg:
  assumes "\<forall>w\<in>set candidates. length w \<le> length guess"
    and "float_signs ops (int (length candidates))"
  shows "\<exists>e. calculate_entropy ops guess candidates = Inr e \<and> fl_zero ops \<le> e"
proof (cases "candidates = []")
  case True
  then show ?thesis by (simp add: calculate_entropy_def)
next
  case False
  from assms(1) have "\<forall>w\<in>set candidates. \<exists>fb. generate_feedback guess w = Inr fb"
    by (simp add: generate_feedback_returns)
  from bucket_counts [OF this] obtain pc where
    pc: "for_loop (count_body guess) candidates [] = Inr pc"
    and b: "\<forall>c\<in>set (map snd pc). 0 < c \<and> c \<le> int (length candidates)" by blast
  from entropy_fold_nonneg [OF assms(2) b, of "fl_zero ops"]
  have "fl_zero ops \<le> fold (entropy_body ops (length candidates)) (map snd pc) (fl_zero ops)"
    by simp
  with False pc show ?thesis by (simp add: calculate_entropy_def)
qed

lemma word_score_returns:
  assumes "\<forall>w\<in>set candidates. length w \<le> length word"
  shows "\<exists>sc. word_score ops candidates word = Inr sc"
proof -
  from calculate_entropy_returns [OF assms, of ops] obtain e where
    "calculate_entropy ops word candidates = Inr e" by blast
  then show ?thesis by (simp add: word_score_def)
qed

lemma word_score_above_start:
  assumes "\<forall>w\<in>set candidates. length w \<le> length word"
    and "float_signs ops (int (length candidates))"
  shows "\<exists>e. calculate_entropy ops word candidates = Inr e \<and> fl_zero ops \<le> e \<and>
           word_score ops candidates word
             = Inr (fl_add ops e (if word \<in> set candidates then fl_tenth ops else fl_zero ops)) \<and>
           fl_neg_one ops
             < fl_add ops e (if word \<in> set candidates then fl_tenth ops else fl_zero ops)"
proof -
  from calculate_entropy_nonneg [OF assms] obtain e where
    e: "calculate_entropy ops word candidates = Inr e" "fl_zero ops \<le> e" by blast
  from assms(2) e(2) have "fl_neg_one ops < fl_add ops e (fl_tenth ops)"
    "fl_neg_one ops < fl_add ops e (fl_zero ops)"
    unfolding float_signs_def by blast+
  with e show ?thesis by (simp add: word_score_def)
qed

section \<open>The value of the entropy\<close>

lemma distinct_count_list: "distinct xs \<longleftrightarrow> (\<forall>x\<in>set xs. count_list xs x = 1)"
proof (induction xs)
  case Nil
  then show ?case by simp
next
  case (Cons a xs)
  show ?case
  proof (cases "a \<in> set xs")
    case True
    then have "count_list xs a \<noteq> 0" by (simp add: count_list_0_iff)
    with True show ?thesis by auto
  next
    case False
    then have "count_list xs a = 0" by (simp add: count_list_0_iff)
    with False Cons.IH show ?thesis by auto
  qed
qed

lemma count_list_less_length:
  assumes "y \<in> set xs" "y \<noteq> x"
  shows "count_list xs x < length xs"
  using assms
proof (induction xs)
  case Nil
  then show ?case by simp
next
  case (Cons a xs)
  have le: "count_list xs x \<le> length xs" by (rule count_le_length)
  show ?case
  proof (cases "a = x")
    case True
    with Cons show ?thesis by auto
  next
    case False
    with le show ?thesis by simp
  qed
qed

lemma count_list_replicate_same: "count_list (replicate n x) x = n"
  by (induction n) simp_all

lemma singleton_list:
  assumes "distinct (map fst pc)" and "set pc = {x}"
  shows "pc = [x]"
proof -
  from assms(1) have d: "distinct pc" by (rule distinct_map [THEN iffD1, THEN conjunct1])
  from d have "length pc = card (set pc)" by (simp add: distinct_card)
  with assms(2) have "length pc = 1" by simp
  then obtain y where "pc = [y]" by (cases pc) auto
  with assms(2) show ?thesis by simp
qed

subsection \<open>Zero entropy\<close>

lemma entropy_fold_pos:
  assumes z: "float_zero_test ops (int n)"
  shows "cs \<noteq> [] \<Longrightarrow> \<forall>c\<in>set cs. 0 < c \<and> c < int n \<Longrightarrow> fl_zero ops \<le> acc \<Longrightarrow>
     fl_zero ops < fold (entropy_body ops n) cs acc"
proof (induction cs arbitrary: acc)
  case Nil
  then show ?case by simp
next
  case (Cons c cs)
  from Cons.prems(2) have c: "0 < c \<and> c < int n" by simp
  let ?t = "fl_mul ops (fl_div ops c (int n)) (fl_log2 ops (fl_div ops c (int n)))"
  from z c have "?t < fl_zero ops" unfolding float_zero_test_def by blast
  with z Cons.prems(3) have pos: "fl_zero ops < fl_sub ops acc ?t"
    unfolding float_zero_test_def by blast
  from c have body: "entropy_body ops n c acc = fl_sub ops acc ?t"
    by (simp add: entropy_body_def Let_def)
  show ?case
  proof (cases "cs = []")
    case True
    with pos body show ?thesis by simp
  next
    case False
    from Cons.prems(2) have rest: "\<forall>c\<in>set cs. 0 < c \<and> c < int n" by simp
    from pos have "fl_zero ops \<le> fl_sub ops acc ?t" by simp
    from Cons.IH [OF False rest this] body show ?thesis by simp
  qed
qed

lemma calculate_entropy_zero_iff:
  assumes len: "\<forall>w\<in>set pool. length w \<le> length guess"
    and z: "float_zero_test ops (int (length pool))"
  shows "\<exists>e. calculate_entropy ops guess pool = Inr e \<and>
           (e = fl_zero ops \<longleftrightarrow>
              (\<forall>v\<in>set pool. \<forall>w\<in>set pool. generate_feedback guess v = generate_feedback guess w))"
proof (cases "pool = []")
  case True
  then show ?thesis by (simp add: calculate_entropy_def)
next
  case False
  let ?n = "length pool"
  let ?pats = "map (generate_feedback guess) pool"
  from len have all: "\<forall>w\<in>set pool. \<exists>fb. generate_feedback guess w = Inr fb"
    by (simp add: generate_feedback_returns)
  from buckets [OF all] obtain pc where
    run: "for_loop (count_body guess) pool [] = Inr pc"
    and d: "distinct (map fst pc)"
    and m: "\<forall>fb c. (fb, c) \<in> set pc \<longleftrightarrow>
               Inr fb \<in> generate_feedback guess ` set pool \<and>
               c = int (count_list ?pats (Inr fb))"
    by blast
  let ?e = "fold (entropy_body ops ?n) (map snd pc) (fl_zero ops)"
  have e: "calculate_entropy ops guess pool = Inr ?e"
    using False run by (simp add: calculate_entropy_def)
  from False obtain w0 where w0: "w0 \<in> set pool" by (cases pool) auto
  with all obtain fb0 where fb0: "generate_feedback guess w0 = Inr fb0" by blast
  show ?thesis
  proof (cases "\<forall>v\<in>set pool. \<forall>w\<in>set pool. generate_feedback guess v = generate_feedback guess w")
    case True
    have same: "\<forall>w\<in>set pool. generate_feedback guess w = Inr fb0"
    proof
      fix w assume "w \<in> set pool"
      with True w0 have "generate_feedback guess w0 = generate_feedback guess w" by blast
      with fb0 show "generate_feedback guess w = Inr fb0" by simp
    qed
    have "?pats = map (\<lambda>w. Inr fb0) pool"
      by (rule map_cong) (simp_all add: same)
    then have "?pats = replicate ?n (Inr fb0)" by (simp only: map_replicate_const)
    then have cnt: "count_list ?pats (Inr fb0) = ?n"
      by (simp only: count_list_replicate_same)
    have img: "generate_feedback guess ` set pool = {Inr fb0}"
      using same w0 by (auto simp: image_iff)
    have "set pc = {(fb0, int ?n)}"
    proof (rule set_eqI)
      fix x :: "string list \<times> int"
      obtain fb c where x: "x = (fb, c)" by (cases x)
      from m have "(fb, c) \<in> set pc \<longleftrightarrow>
          Inr fb \<in> generate_feedback guess ` set pool \<and> c = int (count_list ?pats (Inr fb))"
        by blast
      also have "\<dots> \<longleftrightarrow> fb = fb0 \<and> c = int ?n"
        unfolding img using cnt by auto
      finally show "x \<in> set pc \<longleftrightarrow> x \<in> {(fb0, int ?n)}" by (simp add: x)
    qed
    from singleton_list [OF d this] have pc: "pc = [(fb0, int ?n)]" .
    from False have npos: "0 < int ?n" by simp
    from z have z1: "fl_sub ops (fl_zero ops)
        (fl_mul ops (fl_div ops (int ?n) (int ?n)) (fl_log2 ops (fl_div ops (int ?n) (int ?n))))
          = fl_zero ops"
      unfolding float_zero_test_def by (rule conjunct1)
    have "?e = entropy_body ops ?n (int ?n) (fl_zero ops)" unfolding pc by simp
    also have "\<dots> = fl_zero ops"
      using npos by (simp add: entropy_body_def Let_def z1)
    finally have "?e = fl_zero ops" .
    with e True show ?thesis by blast
  next
    case diff: False
    then obtain v w where vw: "v \<in> set pool" "w \<in> set pool"
      "generate_feedback guess v \<noteq> generate_feedback guess w" by blast
    have bound: "0 < c \<and> c < int ?n" if "c \<in> set (map snd pc)" for c
    proof -
      from that obtain fb where "(fb, c) \<in> set pc" by auto
      with m have in_pats: "Inr fb \<in> set ?pats" and c: "c = int (count_list ?pats (Inr fb))"
        by auto
      from in_pats have "count_list ?pats (Inr fb) \<noteq> 0" by (simp add: count_list_0_iff)
      then have pos: "0 < count_list ?pats (Inr fb)" by simp
      have "\<exists>y. y \<in> set ?pats \<and> y \<noteq> Inr fb"
      proof (cases "generate_feedback guess v = Inr fb")
        case True
        with vw(3) have "generate_feedback guess w \<noteq> Inr fb" by simp
        moreover from vw(2) have "generate_feedback guess w \<in> set ?pats" by simp
        ultimately show ?thesis by blast
      next
        case False
        moreover from vw(1) have "generate_feedback guess v \<in> set ?pats" by simp
        ultimately show ?thesis by blast
      qed
      then obtain y where "y \<in> set ?pats" "y \<noteq> Inr fb" by blast
      then have "count_list ?pats (Inr fb) < length ?pats" by (rule count_list_less_length)
      with pos c show ?thesis by simp
    qed
    from w0 have "generate_feedback guess w0 \<in> generate_feedback guess ` set pool"
      by (rule imageI)
    with fb0 have "Inr fb0 \<in> generate_feedback guess ` set pool" by simp
    with m have "(fb0, int (count_list ?pats (Inr fb0))) \<in> set pc" by blast
    then have ne: "map snd pc \<noteq> []" by auto
    from entropy_fold_pos [OF z ne, of "fl_zero ops"] bound
    have "fl_zero ops < ?e" by simp
    then have "?e \<noteq> fl_zero ops" by simp
    with e diff show ?thesis by blast
  qed
qed

subsection \<open>The entropy in exact arithmetic\<close>

lemma entropy_fold_exact:
  "\<forall>c\<in>set cs. 0 < c \<Longrightarrow>
     fold (entropy_body exact_ops n) cs acc
       = acc - (\<Sum>c\<leftarrow>cs. real_of_int c / real n * log 2 (real_of_int c / real n))"
  by (induction cs arbitrary: acc) (simp_all add: entropy_body_def exact_ops_def Let_def)

lemma bucket_term_split:
  assumes "0 < n" "0 < c"
  shows "real_of_int c / real n * log 2 (real_of_int c / real n)
           = real_of_int c * log 2 (real_of_int c) / real n - real_of_int c / real n * log 2 (real n)"
proof -
  from assms have "log 2 (real_of_int c / real n) = log 2 (real_of_int c) - log 2 (real n)"
    by (simp add: log_divide)
  then show ?thesis by (simp only:) (simp add: algebra_simps diff_divide_distrib)
qed

lemma bucket_sum_split:
  assumes "0 < n"
  shows "\<forall>c\<in>set cs. 0 < c \<Longrightarrow>
     (\<Sum>c\<leftarrow>cs. real_of_int c / real n * log 2 (real_of_int c / real n))
       = (\<Sum>c\<leftarrow>cs. real_of_int c * log 2 (real_of_int c)) / real n
         - real_of_int (sum_list cs) / real n * log 2 (real n)"
proof (induction cs)
  case Nil
  then show ?case by simp
next
  case (Cons c cs)
  then have c: "0 < c" and rest: "\<forall>c\<in>set cs. 0 < c" by simp_all
  from Cons.IH [OF rest] bucket_term_split [OF assms c]
  show ?case by (simp add: add_divide_distrib algebra_simps)
qed

lemma bucket_defect:
  "\<forall>c\<in>set cs. 0 < c \<Longrightarrow>
     0 \<le> (\<Sum>c\<leftarrow>cs. real_of_int c * log 2 (real_of_int c)) \<and>
     ((\<Sum>c\<leftarrow>cs. real_of_int c * log 2 (real_of_int c)) = 0 \<longleftrightarrow> (\<forall>c\<in>set cs. c = 1))"
proof (induction cs)
  case Nil
  then show ?case by simp
next
  case (Cons c cs)
  then have c: "0 < c" and rest: "\<forall>c\<in>set cs. 0 < c" by simp_all
  let ?t = "real_of_int c * log 2 (real_of_int c)"
  let ?s = "\<Sum>c\<leftarrow>cs. real_of_int c * log 2 (real_of_int c)"
  from c have c1: "1 \<le> real_of_int c" by simp
  then have l: "0 \<le> log 2 (real_of_int c)" by simp
  with c have t0: "0 \<le> ?t" by simp
  have tz: "?t = 0 \<longleftrightarrow> c = 1"
  proof
    assume "?t = 0"
    with c have z: "log 2 (real_of_int c) = 0" by simp
    show "c = 1"
    proof (rule ccontr)
      assume "c \<noteq> 1"
      with c have "1 < real_of_int c" by simp
      then have "0 < log 2 (real_of_int c)" by simp
      with z show False by simp
    qed
  next
    assume "c = 1"
    then show "?t = 0" by simp
  qed
  from Cons.IH [OF rest] have s0: "0 \<le> ?s" and sz: "?s = 0 \<longleftrightarrow> (\<forall>c\<in>set cs. c = 1)"
    by simp_all
  have "?t + ?s = 0 \<longleftrightarrow> ?t = 0 \<and> ?s = 0" using t0 s0 by linarith
  with t0 s0 tz sz show ?case by simp
qed

lemma calculate_entropy_exact_bound:
  assumes len: "\<forall>w\<in>set pool. length w \<le> length guess" and ne: "pool \<noteq> []"
  shows "\<exists>e. calculate_entropy exact_ops guess pool = Inr e \<and>
           e \<le> log 2 (real (length pool)) \<and>
           (e = log 2 (real (length pool)) \<longleftrightarrow> distinct (map (generate_feedback guess) pool))"
proof -
  let ?n = "length pool"
  let ?pats = "map (generate_feedback guess) pool"
  from ne have npos: "0 < ?n" by simp
  from len have all: "\<forall>w\<in>set pool. \<exists>fb. generate_feedback guess w = Inr fb"
    by (simp add: generate_feedback_returns)
  from buckets [OF all] obtain pc where
    run: "for_loop (count_body guess) pool [] = Inr pc"
    and d: "distinct (map fst pc)"
    and s: "sum_list (map snd pc) = int ?n"
    and m: "\<forall>fb c. (fb, c) \<in> set pc \<longleftrightarrow>
               Inr fb \<in> generate_feedback guess ` set pool \<and>
               c = int (count_list ?pats (Inr fb))"
    by blast
  let ?cs = "map snd pc"
  let ?D = "\<Sum>c\<leftarrow>?cs. real_of_int c * log 2 (real_of_int c)"
  have pos: "\<forall>c\<in>set ?cs. 0 < c"
  proof
    fix c assume "c \<in> set ?cs"
    then obtain fb where "(fb, c) \<in> set pc" by auto
    with m have "Inr fb \<in> set ?pats" and c: "c = int (count_list ?pats (Inr fb))" by auto
    then have "count_list ?pats (Inr fb) \<noteq> 0" by (simp add: count_list_0_iff)
    with c show "0 < c" by simp
  qed
  let ?e = "fold (entropy_body exact_ops ?n) ?cs 0"
  have e: "calculate_entropy exact_ops guess pool = Inr ?e"
    using ne run by (simp add: calculate_entropy_def exact_ops_def)
  have "?e = - (\<Sum>c\<leftarrow>?cs. real_of_int c / real ?n * log 2 (real_of_int c / real ?n))"
    using entropy_fold_exact [OF pos, of ?n 0] by simp
  also have "\<dots> = - (?D / real ?n - real_of_int (sum_list ?cs) / real ?n * log 2 (real ?n))"
    using bucket_sum_split [OF npos pos] by simp
  also have "\<dots> = log 2 (real ?n) - ?D / real ?n"
    using npos by (simp add: s)
  finally have val: "?e = log 2 (real ?n) - ?D / real ?n" .
  from bucket_defect [OF pos] have D0: "0 \<le> ?D" and Dz: "?D = 0 \<longleftrightarrow> (\<forall>c\<in>set ?cs. c = 1)"
    by simp_all
  from D0 npos have "0 \<le> ?D / real ?n" by simp
  with val have le: "?e \<le> log 2 (real ?n)" by linarith
  have "?e = log 2 (real ?n) \<longleftrightarrow> ?D / real ?n = 0" using val by linarith
  also have "\<dots> \<longleftrightarrow> ?D = 0" using npos by simp
  also have "\<dots> \<longleftrightarrow> (\<forall>c\<in>set ?cs. c = 1)" by (rule Dz)
  also have "\<dots> \<longleftrightarrow> distinct ?pats"
  proof
    assume ones: "\<forall>c\<in>set ?cs. c = 1"
    have "count_list ?pats x = 1" if "x \<in> set ?pats" for x
    proof -
      from that all obtain fb where x: "x = Inr fb" by auto
      with that have "Inr fb \<in> generate_feedback guess ` set pool" by simp
      with m have "(fb, int (count_list ?pats (Inr fb))) \<in> set pc" by blast
      then have "int (count_list ?pats (Inr fb)) \<in> set ?cs" by force
      with ones have "int (count_list ?pats (Inr fb)) = 1" by blast
      with x show ?thesis by simp
    qed
    with distinct_count_list [of ?pats] show "distinct ?pats" by blast
  next
    assume dist: "distinct ?pats"
    show "\<forall>c\<in>set ?cs. c = 1"
    proof
      fix c assume "c \<in> set ?cs"
      then obtain fb where "(fb, c) \<in> set pc" by auto
      with m have in_pats: "Inr fb \<in> set ?pats" and c: "c = int (count_list ?pats (Inr fb))"
        by auto
      from dist in_pats distinct_count_list [of ?pats] have "count_list ?pats (Inr fb) = 1"
        by blast
      with c show "c = 1" by simp
    qed
  qed
  finally have "?e = log 2 (real ?n) \<longleftrightarrow> distinct ?pats" .
  with e le show ?thesis by blast
qed

section \<open>The scoring loop and the evaluation list\<close>

lemma score_body_Inr:
  "word_score ops cands w = Inr s \<Longrightarrow>
     score_body ops cands w (bw, bs) = Inr (if s > bs then (w, s) else (bw, bs))"
  by (simp add: score_body_def)

lemma score_loop:
  assumes "\<forall>w\<in>set ws. word_score ops cands w = Inr (sc w)"
  shows "\<exists>bw' bs'. for_loop (score_body ops cands) ws (bw, bs) = Inr (bw', bs') \<and>
           ((bw', bs') = (bw, bs) \<and> (\<forall>i<length ws. sc (ws ! i) \<le> bs) \<or>
            (\<exists>j<length ws. bw' = ws ! j \<and> bs' = sc (ws ! j) \<and> bs < bs' \<and>
                (\<forall>i<length ws. sc (ws ! i) \<le> bs') \<and> (\<forall>i<j. sc (ws ! i) < bs')))"
  using assms
proof (induction ws arbitrary: bw bs)
  case Nil
  then show ?case by simp
next
  case (Cons w ws)
  from Cons.prems have w: "word_score ops cands w = Inr (sc w)"
    and rest: "\<forall>w\<in>set ws. word_score ops cands w = Inr (sc w)" by simp_all
  show ?case
  proof (cases "sc w > bs")
    case True
    from Cons.IH [OF rest, of w "sc w"] obtain bw' bs' where
      run: "for_loop (score_body ops cands) ws (w, sc w) = Inr (bw', bs')"
      and alt: "(bw', bs') = (w, sc w) \<and> (\<forall>i<length ws. sc (ws ! i) \<le> sc w) \<or>
            (\<exists>j<length ws. bw' = ws ! j \<and> bs' = sc (ws ! j) \<and> sc w < bs' \<and>
                (\<forall>i<length ws. sc (ws ! i) \<le> bs') \<and> (\<forall>i<j. sc (ws ! i) < bs'))"
      by blast
    have run': "for_loop (score_body ops cands) (w # ws) (bw, bs) = Inr (bw', bs')"
      using True run by (simp add: score_body_Inr [OF w])
    from alt have "\<exists>j<length (w # ws). bw' = (w # ws) ! j \<and> bs' = sc ((w # ws) ! j) \<and> bs < bs' \<and>
                (\<forall>i<length (w # ws). sc ((w # ws) ! i) \<le> bs') \<and> (\<forall>i<j. sc ((w # ws) ! i) < bs')"
    proof
      assume a: "(bw', bs') = (w, sc w) \<and> (\<forall>i<length ws. sc (ws ! i) \<le> sc w)"
      then have "\<forall>i<length (w # ws). sc ((w # ws) ! i) \<le> bs'"
        by (auto simp: nth_Cons split: nat.splits)
      with a True show ?thesis by (intro exI [of _ 0]) simp
    next
      assume "\<exists>j<length ws. bw' = ws ! j \<and> bs' = sc (ws ! j) \<and> sc w < bs' \<and>
                (\<forall>i<length ws. sc (ws ! i) \<le> bs') \<and> (\<forall>i<j. sc (ws ! i) < bs')"
      then obtain j where j: "j < length ws" "bw' = ws ! j" "bs' = sc (ws ! j)" "sc w < bs'"
        "\<forall>i<length ws. sc (ws ! i) \<le> bs'" "\<forall>i<j. sc (ws ! i) < bs'" by blast
      have a1: "\<forall>i<length (w # ws). sc ((w # ws) ! i) \<le> bs'"
        using j(4,5) by (auto simp: nth_Cons split: nat.splits)
      have a2: "\<forall>i<Suc j. sc ((w # ws) ! i) < bs'"
        using j(4,6) by (auto simp: nth_Cons split: nat.splits)
      from j True a1 a2 show ?thesis by (intro exI [of _ "Suc j"]) simp
    qed
    with run' show ?thesis by blast
  next
    case False
    from Cons.IH [OF rest, of bw bs] obtain bw' bs' where
      run: "for_loop (score_body ops cands) ws (bw, bs) = Inr (bw', bs')"
      and alt: "(bw', bs') = (bw, bs) \<and> (\<forall>i<length ws. sc (ws ! i) \<le> bs) \<or>
            (\<exists>j<length ws. bw' = ws ! j \<and> bs' = sc (ws ! j) \<and> bs < bs' \<and>
                (\<forall>i<length ws. sc (ws ! i) \<le> bs') \<and> (\<forall>i<j. sc (ws ! i) < bs'))"
      by blast
    have run': "for_loop (score_body ops cands) (w # ws) (bw, bs) = Inr (bw', bs')"
      using False run by (simp add: score_body_Inr [OF w])
    from alt have "(bw', bs') = (bw, bs) \<and> (\<forall>i<length (w # ws). sc ((w # ws) ! i) \<le> bs) \<or>
            (\<exists>j<length (w # ws). bw' = (w # ws) ! j \<and> bs' = sc ((w # ws) ! j) \<and> bs < bs' \<and>
                (\<forall>i<length (w # ws). sc ((w # ws) ! i) \<le> bs') \<and>
                (\<forall>i<j. sc ((w # ws) ! i) < bs'))"
    proof
      assume a: "(bw', bs') = (bw, bs) \<and> (\<forall>i<length ws. sc (ws ! i) \<le> bs)"
      then have "\<forall>i<length (w # ws). sc ((w # ws) ! i) \<le> bs"
        using False by (auto simp: nth_Cons split: nat.splits)
      with a show ?thesis by blast
    next
      assume "\<exists>j<length ws. bw' = ws ! j \<and> bs' = sc (ws ! j) \<and> bs < bs' \<and>
                (\<forall>i<length ws. sc (ws ! i) \<le> bs') \<and> (\<forall>i<j. sc (ws ! i) < bs')"
      then obtain j where j: "j < length ws" "bw' = ws ! j" "bs' = sc (ws ! j)" "bs < bs'"
        "\<forall>i<length ws. sc (ws ! i) \<le> bs'" "\<forall>i<j. sc (ws ! i) < bs'" by blast
      from False j(4) have lt: "sc w < bs'" by simp
      have a1: "\<forall>i<length (w # ws). sc ((w # ws) ! i) \<le> bs'"
        using lt j(5) by (auto simp: nth_Cons split: nat.splits)
      have a2: "\<forall>i<Suc j. sc ((w # ws) ! i) < bs'"
        using lt j(6) by (auto simp: nth_Cons split: nat.splits)
      have "\<exists>j<length (w # ws). bw' = (w # ws) ! j \<and> bs' = sc ((w # ws) ! j) \<and> bs < bs' \<and>
                (\<forall>i<length (w # ws). sc ((w # ws) ! i) \<le> bs') \<and>
                (\<forall>i<j. sc ((w # ws) ! i) < bs')"
        using j a1 a2 by (intro exI [of _ "Suc j"]) simp
      then show ?thesis by blast
    qed
    with run' show ?thesis by blast
  qed
qed

lemma common_starters_Some:
  "common_starters n = Some ss \<Longrightarrow> length ss = 3 \<and> (\<forall>s\<in>set ss. length s = n)"
  by (auto simp: common_starters_def split: if_splits)

lemma add_starter_new:
  "s \<in> set all_words \<and> s \<notin> set w \<Longrightarrow> add_starter all_words s w = w @ [s]"
  by (simp add: add_starter_def)

lemma add_starter_old:
  "\<not> (s \<in> set all_words \<and> s \<notin> set w) \<Longrightarrow> add_starter all_words s w = w"
  by (simp add: add_starter_def)

lemma fold_add_starter:
  "\<exists>extra. fold (add_starter all_words) ss w = w @ extra \<and>
      set extra \<subseteq> set ss \<inter> set all_words \<and> length extra \<le> length ss"
proof (induction ss arbitrary: w)
  case Nil
  then show ?case by simp
next
  case (Cons s ss)
  from Cons.IH [of "add_starter all_words s w"] obtain extra where
    e: "fold (add_starter all_words) ss (add_starter all_words s w)
          = add_starter all_words s w @ extra"
      "set extra \<subseteq> set ss \<inter> set all_words" "length extra \<le> length ss" by blast
  show ?case
  proof (cases "s \<in> set all_words \<and> s \<notin> set w")
    case True
    with e show ?thesis
      by (intro exI [of _ "s # extra"]) (auto simp: add_starter_new)
  next
    case False
    with e show ?thesis
      by (intro exI [of _ extra]) (auto simp: add_starter_old)
  qed
qed

lemma words_to_evaluate_shape:
  "(length candidates \<le> 10 \<longrightarrow> words_to_evaluate candidates all_words 30 = candidates) \<and>
   (10 < length candidates \<longrightarrow>
      (\<exists>extra. words_to_evaluate candidates all_words 30 = take 20 candidates @ extra \<and>
         (length candidates \<le> 50 \<longrightarrow> extra = []) \<and>
         set extra \<subseteq> set all_words \<inter> starters_for candidates \<and> length extra \<le> 3))"
proof (intro conjI impI)
  assume "length candidates \<le> 10"
  then show "words_to_evaluate candidates all_words 30 = candidates"
    by (simp add: words_to_evaluate_def)
next
  assume big: "10 < length candidates"
  show "\<exists>extra. words_to_evaluate candidates all_words 30 = take 20 candidates @ extra \<and>
         (length candidates \<le> 50 \<longrightarrow> extra = []) \<and>
         set extra \<subseteq> set all_words \<inter> starters_for candidates \<and> length extra \<le> 3"
  proof (cases "50 < length candidates")
    case False
    with big have "words_to_evaluate candidates all_words 30 = take 20 candidates"
      by (simp add: words_to_evaluate_def Let_def)
    then show ?thesis by simp
  next
    case True
    show ?thesis
    proof (cases "common_starters (length (candidates ! 0))")
      case None
      with True have "words_to_evaluate candidates all_words 30 = take 20 candidates"
        by (simp add: words_to_evaluate_def Let_def)
      with True show ?thesis by simp
    next
      case (Some ss)
      from fold_add_starter [of all_words ss "take 20 candidates"] obtain extra where
        e: "fold (add_starter all_words) ss (take 20 candidates) = take 20 candidates @ extra"
          "set extra \<subseteq> set ss \<inter> set all_words" "length extra \<le> length ss" by blast
      from common_starters_Some [OF Some] have "length ss = 3" by simp
      with e(3) have l3: "length extra \<le> 3" by simp
      with True Some e(1) have "words_to_evaluate candidates all_words 30 = take 20 candidates @ extra"
        by (simp add: words_to_evaluate_def Let_def)
      moreover from e(2) Some have "set extra \<subseteq> set all_words \<inter> starters_for candidates"
        by (auto simp: starters_for_def)
      ultimately show ?thesis using True l3 by auto
    qed
  qed
qed

lemma starters_for_length: "s \<in> starters_for candidates \<Longrightarrow> length s = length (candidates ! 0)"
  by (auto simp: starters_for_def dest: common_starters_Some split: option.splits)

lemma words_to_evaluate_props:
  assumes "candidates \<noteq> []"
  shows "words_to_evaluate candidates all_words 30 \<noteq> []"
    and "words_to_evaluate candidates all_words 30 ! 0 = candidates ! 0"
    and "length (words_to_evaluate candidates all_words 30) \<le> 30"
    and "set (words_to_evaluate candidates all_words 30)
           \<subseteq> set candidates \<union> (set all_words \<inter> starters_for candidates)"
proof -
  let ?wte = "words_to_evaluate candidates all_words 30"
  have "?wte \<noteq> [] \<and> ?wte ! 0 = candidates ! 0 \<and> length ?wte \<le> 30 \<and>
        set ?wte \<subseteq> set candidates \<union> (set all_words \<inter> starters_for candidates)"
  proof (cases "length candidates \<le> 10")
    case True
    with words_to_evaluate_shape [of candidates all_words] assms show ?thesis by simp
  next
    case False
    with words_to_evaluate_shape [of candidates all_words] obtain extra where
      e: "?wte = take 20 candidates @ extra"
        "set extra \<subseteq> set all_words \<inter> starters_for candidates" "length extra \<le> 3"
      by auto
    from False have t: "take 20 candidates \<noteq> []" by auto
    have "set (take 20 candidates) \<subseteq> set candidates" by (rule set_take_subset)
    with e t False show ?thesis by (auto simp: nth_append)
  qed
  then show "?wte \<noteq> []" "?wte ! 0 = candidates ! 0" "length ?wte \<le> 30"
    "set ?wte \<subseteq> set candidates \<union> (set all_words \<inter> starters_for candidates)" by simp_all
qed


lemma words_to_evaluate_lengths:
  assumes "candidates \<noteq> []" and "\<forall>w\<in>set candidates. length w = length (candidates ! 0)"
  shows "\<forall>w\<in>set (words_to_evaluate candidates all_words 30). length w = length (candidates ! 0)"
  using words_to_evaluate_props(4) [OF assms(1), of all_words] assms(2) starters_for_length
  by blast

lemma get_optimal_guess_unfold:
  assumes "length (c0 # cs) \<noteq> 1" and "length (c0 # cs) \<noteq> 2"
  shows "get_optimal_guess ops (c0 # cs) all_words k =
        (case for_loop (score_body ops (c0 # cs)) (words_to_evaluate (c0 # cs) all_words k)
                (c0, fl_neg_one ops) of
           Inl e \<Rightarrow> Inl e | Inr (best_word, best_score) \<Rightarrow> Inr best_word)"
  using assms unfolding get_optimal_guess_def Let_def by simp

lemma word_score_score_of:
  "word_score ops pool w = Inr s \<Longrightarrow> word_score ops pool w = Inr (score_of ops pool w)"
  by (simp add: score_of_def)

lemma get_optimal_guess_argmax:
  assumes ne: "pool \<noteq> []" and n1: "length pool \<noteq> 1" and n2: "length pool \<noteq> 2"
    and uni: "\<forall>w\<in>set pool. length w = length (pool ! 0)"
    and signs: "float_signs ops (int (length pool))"
  shows "\<exists>j<length (words_to_evaluate pool all_words 30).
           (\<forall>w\<in>set (words_to_evaluate pool all_words 30).
               \<exists>e. calculate_entropy ops w pool = Inr e \<and> fl_zero ops \<le> e \<and>
                   score_of ops pool w
                     = fl_add ops e (if w \<in> set pool then fl_tenth ops else fl_zero ops)) \<and>
           get_optimal_guess ops pool all_words 30
             = Inr (words_to_evaluate pool all_words 30 ! j) \<and>
           (\<forall>i<length (words_to_evaluate pool all_words 30).
               score_of ops pool (words_to_evaluate pool all_words 30 ! i)
                 \<le> score_of ops pool (words_to_evaluate pool all_words 30 ! j)) \<and>
           (\<forall>i<j. score_of ops pool (words_to_evaluate pool all_words 30 ! i)
                 < score_of ops pool (words_to_evaluate pool all_words 30 ! j))"
proof -
  let ?wte = "words_to_evaluate pool all_words 30"
  from ne obtain c0 cs where pool: "pool = c0 # cs" by (cases pool) auto
  have lens: "\<forall>w\<in>set ?wte. length w = length (pool ! 0)"
    using ne uni by (rule words_to_evaluate_lengths)
  have ent: "\<exists>e. calculate_entropy ops w pool = Inr e \<and> fl_zero ops \<le> e \<and>
                   score_of ops pool w
                     = fl_add ops e (if w \<in> set pool then fl_tenth ops else fl_zero ops) \<and>
                   word_score ops pool w = Inr (score_of ops pool w) \<and>
                   fl_neg_one ops < score_of ops pool w"
    if "w \<in> set ?wte" for w
  proof -
    from that lens uni have "\<forall>c\<in>set pool. length c \<le> length w" by simp
    from word_score_above_start [OF this signs] obtain e where
      e: "calculate_entropy ops w pool = Inr e" "fl_zero ops \<le> e"
      "word_score ops pool w
         = Inr (fl_add ops e (if w \<in> set pool then fl_tenth ops else fl_zero ops))"
      "fl_neg_one ops < fl_add ops e (if w \<in> set pool then fl_tenth ops else fl_zero ops)"
      by blast
    then show ?thesis by (simp add: score_of_def)
  qed
  have ws: "\<forall>w\<in>set ?wte. word_score ops pool w = Inr (score_of ops pool w)"
    using ent by blast
  from words_to_evaluate_props(1) [OF ne, of all_words] have wne: "0 < length ?wte" by simp
  then have "?wte ! 0 \<in> set ?wte" by (rule nth_mem)
  from ent [OF this] have first: "\<not> score_of ops pool (?wte ! 0) \<le> fl_neg_one ops" by auto
  from score_loop [OF ws, of c0 "fl_neg_one ops"] obtain bw' bs' where
    run: "for_loop (score_body ops pool) ?wte (c0, fl_neg_one ops) = Inr (bw', bs')"
    and alt: "(bw', bs') = (c0, fl_neg_one ops) \<and>
          (\<forall>i<length ?wte. score_of ops pool (?wte ! i) \<le> fl_neg_one ops) \<or>
        (\<exists>j<length ?wte. bw' = ?wte ! j \<and> bs' = score_of ops pool (?wte ! j) \<and>
            fl_neg_one ops < bs' \<and>
            (\<forall>i<length ?wte. score_of ops pool (?wte ! i) \<le> bs') \<and>
            (\<forall>i<j. score_of ops pool (?wte ! i) < bs'))"
    by blast
  from alt first wne obtain j where j: "j < length ?wte" "bw' = ?wte ! j"
    "bs' = score_of ops pool (?wte ! j)"
    "\<forall>i<length ?wte. score_of ops pool (?wte ! i) \<le> bs'"
    "\<forall>i<j. score_of ops pool (?wte ! i) < bs'"
    by blast
  have "get_optimal_guess ops pool all_words 30 = Inr bw'"
    using n1 n2 unfolding pool by (simp add: get_optimal_guess_unfold run [unfolded pool])
  with j ent show ?thesis by blast
qed

lemma get_optimal_guess_small:
  "length pool = 1 \<or> length pool = 2 \<Longrightarrow> get_optimal_guess ops pool all_words k = Inr (pool ! 0)"
  by (auto simp: get_optimal_guess_def)

text \<open>
  Whatever the arithmetic, on a non-empty pool of words of one length the selector returns
  a word of that length: the first candidate or a word of the evaluation list.
\<close>

lemma get_optimal_guess_returns:
  assumes ne: "pool \<noteq> []" and uni: "\<forall>w\<in>set pool. length w = length (pool ! 0)"
  shows "\<exists>g. get_optimal_guess ops pool all_words 30 = Inr g \<and> length g = length (pool ! 0)"
proof (cases "length pool = 1 \<or> length pool = 2")
  case True
  then show ?thesis by (simp add: get_optimal_guess_small)
next
  case False
  then have n: "length pool \<noteq> 1" "length pool \<noteq> 2" by simp_all
  let ?wte = "words_to_evaluate pool all_words 30"
  from ne obtain c0 cs where pool: "pool = c0 # cs" by (cases pool) auto
  have lens: "\<forall>w\<in>set ?wte. length w = length (pool ! 0)"
    using ne uni by (rule words_to_evaluate_lengths)
  have ws: "\<forall>w\<in>set ?wte. word_score ops pool w = Inr (score_of ops pool w)"
  proof
    fix w assume "w \<in> set ?wte"
    with lens uni have "\<forall>c\<in>set pool. length c \<le> length w" by simp
    from word_score_returns [OF this, of ops] obtain s where "word_score ops pool w = Inr s"
      by blast
    then show "word_score ops pool w = Inr (score_of ops pool w)" by (rule word_score_score_of)
  qed
  from score_loop [OF ws, of c0 "fl_neg_one ops"] obtain bw' bs' where
    run: "for_loop (score_body ops pool) ?wte (c0, fl_neg_one ops) = Inr (bw', bs')"
    and alt: "(bw', bs') = (c0, fl_neg_one ops) \<and>
          (\<forall>i<length ?wte. score_of ops pool (?wte ! i) \<le> fl_neg_one ops) \<or>
        (\<exists>j<length ?wte. bw' = ?wte ! j \<and> bs' = score_of ops pool (?wte ! j) \<and>
            fl_neg_one ops < bs' \<and>
            (\<forall>i<length ?wte. score_of ops pool (?wte ! i) \<le> bs') \<and>
            (\<forall>i<j. score_of ops pool (?wte ! i) < bs'))"
    by blast
  have g: "get_optimal_guess ops pool all_words 30 = Inr bw'"
    using n unfolding pool by (simp add: get_optimal_guess_unfold run [unfolded pool])
  from alt have "bw' = pool ! 0 \<or> bw' \<in> set ?wte"
    using pool by (auto simp: nth_mem)
  with lens have "length bw' = length (pool ! 0)" by blast
  with g show ?thesis by blast
qed

section \<open>Claims about the guess selector\<close>

text \<open>The exact arithmetic has the sign properties, for a pool of any size.\<close>

lemma float_signs_exact: "float_signs exact_ops n"
proof -
  have "real_of_int c / real_of_int n * log 2 (real_of_int c / real_of_int n) \<le> 0"
    if "0 < c \<and> c \<le> n" for c
  proof -
    from that have pos: "0 < real_of_int c / real_of_int n" by simp
    from that have "real_of_int c / real_of_int n \<le> 1" by (simp add: divide_le_eq_1)
    with pos have "log 2 (real_of_int c / real_of_int n) \<le> 0" by simp
    with pos show ?thesis by (intro mult_nonneg_nonpos) simp_all
  qed
  then show ?thesis by (simp add: float_signs_def exact_ops_def)
qed

text \<open>
  C5, as stated, fails on the empty pool, which has neither one nor two members: the
  selector returns no word there, since \<open>best_word = candidates[0]\<close> raises.
\<close>

theorem C5_empty_pool_counterexample:
  "length ([] :: string list) \<noteq> 1 \<and> length ([] :: string list) \<noteq> 2 \<and>
   get_optimal_guess double_ops [] [] 30 = Inl IndexError"
  by (simp add: get_optimal_guess_def)

text \<open>
  C5 (amended): the selector returns the sole member of a one-word pool and the first
  member of a two-word pool, and on the empty pool it raises \<open>IndexError\<close>. For a pool of
  three or more words of one length, with \<open>wte\<close> the list it evaluates (the pool when
  it has at most 10 words; else the pool's first 20 words, followed, when the pool has more
  than 50 words, by at most three starter words of the dictionary; never more than 30
  words), it returns the word \<open>wte[j]\<close> whose score, the entropy plus \<open>0.1\<close> for a
  member of the pool, both as the float arithmetic computes them, is at least every score
  in \<open>wte\<close> and strictly above the score of every earlier word. The arithmetic is any
  one with the sign properties \<open>float_signs\<close>.
\<close>

theorem C5_selector_priority:
  assumes "wte = words_to_evaluate pool all_words 30"
  shows "get_optimal_guess ops [w] all_words 30 = Inr w \<and>
         get_optimal_guess ops [w1, w2] all_words 30 = Inr w1 \<and>
         get_optimal_guess ops [] all_words 30 = Inl IndexError \<and>
         (3 \<le> length pool \<and> (\<forall>c\<in>set pool. length c = length (pool ! 0)) \<longrightarrow>
            (length pool \<le> 10 \<longrightarrow> wte = pool) \<and>
            (10 < length pool \<longrightarrow>
               (\<exists>extra. wte = take 20 pool @ extra \<and> (length pool \<le> 50 \<longrightarrow> extra = []) \<and>
                  set extra \<subseteq> set all_words \<inter> starters_for pool \<and> length extra \<le> 3)) \<and>
            length wte \<le> 30 \<and>
            (float_signs ops (int (length pool)) \<longrightarrow>
              (\<exists>j<length wte.
                 (\<forall>v\<in>set wte. \<exists>e. calculate_entropy ops v pool = Inr e \<and> fl_zero ops \<le> e \<and>
                     score_of ops pool v
                       = fl_add ops e (if v \<in> set pool then fl_tenth ops else fl_zero ops)) \<and>
                 get_optimal_guess ops pool all_words 30 = Inr (wte ! j) \<and>
                 (\<forall>i<length wte. score_of ops pool (wte ! i) \<le> score_of ops pool (wte ! j)) \<and>
                 (\<forall>i<j. score_of ops pool (wte ! i) < score_of ops pool (wte ! j)))))"
proof (intro conjI impI)
  show "get_optimal_guess ops [w] all_words 30 = Inr w"
    using get_optimal_guess_small [of "[w]" ops all_words 30] by simp
  show "get_optimal_guess ops [w1, w2] all_words 30 = Inr w1"
    using get_optimal_guess_small [of "[w1, w2]" ops all_words 30] by simp
  show "get_optimal_guess ops [] all_words 30 = Inl IndexError"
    by (simp add: get_optimal_guess_def)
next
  assume "length pool \<le> 10"
  with words_to_evaluate_shape [of pool all_words] assms show "wte = pool" by simp
next
  assume "10 < length pool"
  with words_to_evaluate_shape [of pool all_words] assms
  show "\<exists>extra. wte = take 20 pool @ extra \<and> (length pool \<le> 50 \<longrightarrow> extra = []) \<and>
                  set extra \<subseteq> set all_words \<inter> starters_for pool \<and> length extra \<le> 3"
    by simp
next
  assume a: "3 \<le> length pool \<and> (\<forall>c\<in>set pool. length c = length (pool ! 0))"
  then have ne: "pool \<noteq> []" by auto
  from words_to_evaluate_props(3) [OF ne, of all_words] assms show "length wte \<le> 30" by simp
next
  assume a: "3 \<le> length pool \<and> (\<forall>c\<in>set pool. length c = length (pool ! 0))"
    and signs: "float_signs ops (int (length pool))"
  from a have ne: "pool \<noteq> []" by auto
  from a have n: "length pool \<noteq> 1" "length pool \<noteq> 2" by simp_all
  from a have uni: "\<forall>c\<in>set pool. length c = length (pool ! 0)" by simp
  from get_optimal_guess_argmax [OF ne n uni signs, of all_words] assms
  show "\<exists>j<length wte.
                 (\<forall>v\<in>set wte. \<exists>e. calculate_entropy ops v pool = Inr e \<and> fl_zero ops \<le> e \<and>
                     score_of ops pool v
                       = fl_add ops e (if v \<in> set pool then fl_tenth ops else fl_zero ops)) \<and>
                 get_optimal_guess ops pool all_words 30 = Inr (wte ! j) \<and>
                 (\<forall>i<length wte. score_of ops pool (wte ! i) \<le> score_of ops pool (wte ! j)) \<and>
                 (\<forall>i<j. score_of ops pool (wte ! i) < score_of ops pool (wte ! j))"
    by simp
qed

text \<open>
  The amended C5 in exact arithmetic, on a pool of three words that all score the same:
  the first one is returned.
\<close>

theorem C5_selector_priority_witness:
  "get_optimal_guess exact_ops [''ab'', ''cd'', ''ef''] [] 30 = Inr ''ab''"
proof -
  let ?pool = "[''ab'', ''cd'', ''ef'']"
  have wte: "?pool = words_to_evaluate ?pool [] 30"
    by (simp add: words_to_evaluate_def)
  have h: "3 \<le> length ?pool \<and> (\<forall>c\<in>set ?pool. length c = length (?pool ! 0))"
    by simp
  have signs: "float_signs exact_ops (int (length ?pool))" by (rule float_signs_exact)
  have c1: "for_loop (count_body ''ab'') ?pool []
      = Inr [([CORRECT, CORRECT], 1), ([ABSENT, ABSENT], 2)]" by code_simp
  have c2: "for_loop (count_body ''cd'') ?pool []
      = Inr [([ABSENT, ABSENT], 2), ([CORRECT, CORRECT], 1)]" by code_simp
  have c3: "for_loop (count_body ''ef'') ?pool []
      = Inr [([ABSENT, ABSENT], 2), ([CORRECT, CORRECT], 1)]" by code_simp
  have n1: "calculate_entropy exact_ops ''ab'' ?pool
      = Inr (fold (entropy_body exact_ops 3) [1, 2] 0)"
    unfolding calculate_entropy_def c1 by (simp add: eval_nat_numeral exact_ops_def)
  have n2: "calculate_entropy exact_ops ''cd'' ?pool
      = Inr (fold (entropy_body exact_ops 3) [2, 1] 0)"
    unfolding calculate_entropy_def c2 by (simp add: eval_nat_numeral exact_ops_def)
  have n3: "calculate_entropy exact_ops ''ef'' ?pool
      = Inr (fold (entropy_body exact_ops 3) [2, 1] 0)"
    unfolding calculate_entropy_def c3 by (simp add: eval_nat_numeral exact_ops_def)
  have s12: "score_of exact_ops ?pool ''cd'' = score_of exact_ops ?pool ''ab''"
    unfolding score_of_def word_score_def n1 n2 by (simp add: entropy_body_def exact_ops_def)
  have s13: "score_of exact_ops ?pool ''ef'' = score_of exact_ops ?pool ''ab''"
    unfolding score_of_def word_score_def n1 n3 by (simp add: entropy_body_def exact_ops_def)
  from C5_selector_priority [OF wte, where ops = exact_ops, THEN conjunct2, THEN conjunct2,
      THEN conjunct2, rule_format, OF h, THEN conjunct2, THEN conjunct2, THEN conjunct2,
      rule_format, OF signs]
  obtain j where j: "j < length ?pool"
    "get_optimal_guess exact_ops ?pool [] 30 = Inr (?pool ! j)"
    "\<forall>i<j. score_of exact_ops ?pool (?pool ! i) < score_of exact_ops ?pool (?pool ! j)"
    by blast
  have "j = 0"
  proof (rule ccontr)
    assume "j \<noteq> 0"
    then have "0 < j" by simp
    with j(3) have lt: "score_of exact_ops ?pool (?pool ! 0) < score_of exact_ops ?pool (?pool ! j)"
      by blast
    from j(1) \<open>0 < j\<close> have "j = 1 \<or> j = 2" by auto
    with lt s12 s13 show False by auto
  qed
  with j(2) show ?thesis by simp
qed

section \<open>The game loop\<close>

text \<open>
  One iteration of the loop, once the selector and the oracle have returned: a correct
  guess ends the game as won; otherwise the pool is filtered, and an empty pool ends it.
\<close>

lemma play_loop_Cons:
  assumes g: "get_optimal_guess ops (st_candidates st) all_words 30 = Inr guess"
    and f: "generate_feedback guess secret = Inr feedback"
  shows "guess = secret \<Longrightarrow>
           play_loop ops secret all_words (n # ns) st
             = Inr (st\<lparr>st_guesses := st_guesses st @ [guess],
                      st_feedbacks := st_feedbacks st @ [feedback], st_won := True\<rparr>)"
    and "guess \<noteq> secret \<Longrightarrow>
           apply_feedback_to_candidates (st_candidates st) guess feedback = Inr c \<Longrightarrow>
           play_loop ops secret all_words (n # ns) st
             = (if c = [] then
                  Inr (st\<lparr>st_guesses := st_guesses st @ [guess],
                          st_feedbacks := st_feedbacks st @ [feedback], st_candidates := c\<rparr>)
                else play_loop ops secret all_words ns
                  (st\<lparr>st_guesses := st_guesses st @ [guess],
                      st_feedbacks := st_feedbacks st @ [feedback], st_candidates := c\<rparr>))"
  using g f by (simp_all add: Let_def)

lemma play_loop_result:
  assumes dict: "\<forall>w\<in>set all_words. length w = length secret"
    and ne: "st_candidates st \<noteq> []"
    and sub: "set (st_candidates st) \<subseteq> set all_words"
    and nowon: "\<not> st_won st"
    and fresh: "secret \<notin> set (st_guesses st)"
  shows "\<exists>st'. play_loop ops secret all_words ns st = Inr st' \<and>
      length (st_guesses st) \<le> length (st_guesses st') \<and>
      length (st_guesses st') \<le> length (st_guesses st) + length ns \<and>
      (ns \<noteq> [] \<longrightarrow> length (st_guesses st) < length (st_guesses st')) \<and>
      length (st_feedbacks st') + length (st_guesses st)
        = length (st_feedbacks st) + length (st_guesses st') \<and>
      (st_won st' \<longleftrightarrow> secret \<in> set (st_guesses st')) \<and>
      (st_won st' \<longrightarrow> last (st_guesses st') = secret) \<and>
      (\<not> st_won st' \<longrightarrow>
          length (st_guesses st') = length (st_guesses st) + length ns \<or> st_candidates st' = []) \<and>
      set (st_candidates st') \<subseteq> set (st_candidates st) \<and>
      (secret \<in> set (st_candidates st) \<longrightarrow> secret \<in> set (st_candidates st'))"
  using ne sub nowon fresh
proof (induction ns arbitrary: st)
  case Nil
  then show ?case by simp
next
  case (Cons n ns)
  let ?cs = "st_candidates st"
  from Cons.prems(1,2) dict have uni: "\<forall>w\<in>set ?cs. length w = length secret" by blast
  from Cons.prems(1) have "?cs ! 0 \<in> set ?cs" by (simp add: nth_mem)
  with uni have l0: "length (?cs ! 0) = length secret" by blast
  with uni have uni0: "\<forall>w\<in>set ?cs. length w = length (?cs ! 0)" by simp
  from get_optimal_guess_returns [OF Cons.prems(1) uni0, where all_words = all_words and ops = ops] l0 obtain guess where
    g: "get_optimal_guess ops ?cs all_words 30 = Inr guess" and lg: "length guess = length secret"
    by auto
  from generate_feedback_returns [of secret guess] lg obtain feedback where
    f: "generate_feedback guess secret = Inr feedback" by auto
  show ?case
  proof (cases "guess = secret")
    case True
    from play_loop_Cons(1) [OF g f True]
    have "play_loop ops secret all_words (n # ns) st
             = Inr (st\<lparr>st_guesses := st_guesses st @ [guess],
                      st_feedbacks := st_feedbacks st @ [feedback], st_won := True\<rparr>)" .
    with True show ?thesis by simp
  next
    case False
    let ?c = "filter (\<lambda>w. generate_feedback guess w = Inr feedback) ?cs"
    from uni lg have "\<forall>w\<in>set ?cs. length w \<le> length guess" by simp
    from apply_feedback_returns [OF this]
    have a: "apply_feedback_to_candidates ?cs guess feedback = Inr ?c" .
    let ?st2 = "st\<lparr>st_guesses := st_guesses st @ [guess],
                      st_feedbacks := st_feedbacks st @ [feedback], st_candidates := ?c\<rparr>"
    note run = play_loop_Cons(2) [OF g f False a, of n ns]
    have keep: "secret \<in> set ?cs \<longrightarrow> secret \<in> set ?c" using f by simp
    have g2: "st_guesses ?st2 = st_guesses st @ [guess]"
      and f2: "st_feedbacks ?st2 = st_feedbacks st @ [feedback]"
      and c2: "st_candidates ?st2 = ?c" and w2: "st_won ?st2 = st_won st" by simp_all
    show ?thesis
    proof (cases "?c = []")
      case True
      with run have "play_loop ops secret all_words (n # ns) st = Inr ?st2" by simp
      moreover have "secret \<notin> set ?cs" using keep True by auto
      ultimately show ?thesis using Cons.prems False True by simp
    next
      case nonempty: False
      with run have r: "play_loop ops secret all_words (n # ns) st = play_loop ops secret all_words ns ?st2"
        by simp
      have p1: "st_candidates ?st2 \<noteq> []" using nonempty by simp
      have p2: "set (st_candidates ?st2) \<subseteq> set all_words" using Cons.prems(2) by auto
      have p3: "\<not> st_won ?st2" using Cons.prems(3) by simp
      have p4: "secret \<notin> set (st_guesses ?st2)" using Cons.prems(4) False by simp
      from Cons.IH [OF p1 p2 p3 p4] obtain st' where
        run': "play_loop ops secret all_words ns ?st2 = Inr st'"
        and b: "length (st_guesses ?st2) \<le> length (st_guesses st')"
        and c: "length (st_guesses st') \<le> length (st_guesses ?st2) + length ns"
        and e: "length (st_feedbacks st') + length (st_guesses ?st2)
                  = length (st_feedbacks ?st2) + length (st_guesses st')"
        and w: "st_won st' \<longleftrightarrow> secret \<in> set (st_guesses st')"
        and l: "st_won st' \<longrightarrow> last (st_guesses st') = secret"
        and h: "\<not> st_won st' \<longrightarrow>
          length (st_guesses st') = length (st_guesses ?st2) + length ns \<or> st_candidates st' = []"
        and i: "set (st_candidates st') \<subseteq> set (st_candidates ?st2)"
        and j: "secret \<in> set (st_candidates ?st2) \<longrightarrow> secret \<in> set (st_candidates st')"
        by blast
      have B: "length (st_guesses st) < length (st_guesses st')" using b unfolding g2 by simp
      have C: "length (st_guesses st') \<le> length (st_guesses st) + length (n # ns)"
        using c unfolding g2 by simp
      have E: "length (st_feedbacks st') + length (st_guesses st)
                 = length (st_feedbacks st) + length (st_guesses st')"
        using e unfolding g2 f2 by simp
      have H: "\<not> st_won st' \<longrightarrow>
          length (st_guesses st') = length (st_guesses st) + length (n # ns)
            \<or> st_candidates st' = []"
        using h unfolding g2 by simp
      have I: "set (st_candidates st') \<subseteq> set ?cs" using i unfolding c2 by auto
      have J: "secret \<in> set ?cs \<longrightarrow> secret \<in> set (st_candidates st')"
        using j keep unfolding c2 by blast
      from r run' have A: "play_loop ops secret all_words (n # ns) st = Inr st'" by simp
      from A B C E w l H I J show ?thesis
        by (intro exI [of _ st']) (simp add: less_imp_le)
    qed
  qed
qed

text \<open>
  A game of more turns passes through the states of a game of fewer turns: running the loop
  over \<open>ns @ ms\<close> is running it over \<open>ns\<close> and, unless that game has ended by a
  \<open>break\<close> (it is won, or its pool is empty), going on over \<open>ms\<close>. So the state
  after the loop over \<open>[0..<k]\<close> is the state of every longer game after its first
  \<open>k\<close> turns.
\<close>

lemma play_loop_append:
  "\<not> st_won st \<Longrightarrow>
   play_loop ops secret all_words (ns @ ms) st =
     (case play_loop ops secret all_words ns st of
        Inl e \<Rightarrow> Inl e
      | Inr st' \<Rightarrow>
          if ns \<noteq> [] \<and> (st_won st' \<or> st_candidates st' = []) then Inr st'
          else play_loop ops secret all_words ms st')"
proof (induction ns arbitrary: st)
  case Nil
  then show ?case by simp
next
  case (Cons n ns)
  show ?case
  proof (cases "get_optimal_guess ops (st_candidates st) all_words 30")
    case (Inl e)
    then show ?thesis by simp
  next
    case g: (Inr guess)
    show ?thesis
    proof (cases "generate_feedback guess secret")
      case (Inl e)
      with g show ?thesis by simp
    next
      case f: (Inr feedback)
      show ?thesis
      proof (cases "guess = secret")
        case True
        let ?won = "st\<lparr>st_guesses := st_guesses st @ [guess],
                      st_feedbacks := st_feedbacks st @ [feedback], st_won := True\<rparr>"
        have L: "play_loop ops secret all_words ((n # ns) @ ms) st = Inr ?won"
          using play_loop_Cons(1) [OF g f True, of n "ns @ ms"] by (simp only: append_Cons)
        have R: "play_loop ops secret all_words (n # ns) st = Inr ?won"
          by (rule play_loop_Cons(1) [OF g f True])
        show ?thesis unfolding L R by simp
      next
        case False
        show ?thesis
        proof (cases "apply_feedback_to_candidates (st_candidates st) guess feedback")
          case (Inl e)
          with g f False show ?thesis by (simp add: Let_def)
        next
          case a: (Inr c)
          let ?st2 = "st\<lparr>st_guesses := st_guesses st @ [guess],
                      st_feedbacks := st_feedbacks st @ [feedback], st_candidates := c\<rparr>"
          note run = play_loop_Cons(2) [OF g f False a]
          show ?thesis
          proof (cases "c = []")
            case True
            have L: "play_loop ops secret all_words ((n # ns) @ ms) st = Inr ?st2"
              using run [of n "ns @ ms"] True by (simp only: append_Cons if_True simp_thms)
            have R: "play_loop ops secret all_words (n # ns) st = Inr ?st2"
              using run [of n ns] True by (simp only: if_True simp_thms)
            show ?thesis unfolding L R using True by simp
          next
            case nonempty: False
            have nw: "\<not> st_won ?st2" using Cons.prems by simp
            have c2: "st_candidates ?st2 \<noteq> []" using nonempty by simp
            have l: "play_loop ops secret all_words ((n # ns) @ ms) st
                       = play_loop ops secret all_words (ns @ ms) ?st2"
              using run [of n "ns @ ms"] nonempty by (simp only: append_Cons if_False simp_thms)
            have r: "play_loop ops secret all_words (n # ns) st = play_loop ops secret all_words ns ?st2"
              using run [of n ns] nonempty by (simp only: if_False simp_thms)
            show ?thesis
            proof (cases "ns = []")
              case True
              have "play_loop ops secret all_words ns ?st2 = Inr ?st2" using True by simp
              moreover have "play_loop ops secret all_words (ns @ ms) ?st2
                  = play_loop ops secret all_words ms ?st2" using True by simp
              ultimately show ?thesis unfolding l r using nw c2 by simp
            next
              case False
              show ?thesis unfolding l r Cons.IH [OF nw] using False
                by (simp cong: sum.case_cong)
            qed
          qed
        qed
      qed
    qed
  qed
qed

text \<open>A game of two turns: the dictionary is \<open>ab, ba\<close> and the secret is \<open>ba\<close>.\<close>

lemma demo_game:
  "play_loop double_ops ''ba'' [''ab'', ''ba''] [0..<6] (initial_state [''ab'', ''ba''])
     = Inr \<lparr>st_candidates = [''ba''], st_guesses = [''ab'', ''ba''],
            st_feedbacks = [[PRESENT, PRESENT], [CORRECT, CORRECT]], st_won = True\<rparr>"
proof -
  let ?d = "[''ab'', ''ba'']"
  have r: "[0..<6] = 0 # 1 # [2..<6]" by (simp add: upt_conv_Cons)
  have g1: "get_optimal_guess double_ops (st_candidates (initial_state ?d)) ?d 30 = Inr ''ab''"
    by (simp add: initial_state_def get_optimal_guess_def)
  have f1: "generate_feedback ''ab'' ''ba'' = Inr [PRESENT, PRESENT]" by code_simp
  have a1: "apply_feedback_to_candidates (st_candidates (initial_state ?d)) ''ab''
              [PRESENT, PRESENT] = Inr [''ba'']"
    unfolding initial_state_def game_state.simps by code_simp
  let ?st1 = "(initial_state ?d)\<lparr>st_guesses := st_guesses (initial_state ?d) @ [''ab''],
      st_feedbacks := st_feedbacks (initial_state ?d) @ [[PRESENT, PRESENT]],
      st_candidates := [''ba'']\<rparr>"
  have s1: "play_loop double_ops ''ba'' ?d (0 # 1 # [2..<6]) (initial_state ?d)
      = play_loop double_ops ''ba'' ?d (1 # [2..<6]) ?st1"
    using play_loop_Cons(2) [OF g1 f1 _ a1, of 0 "1 # [2..<6]"] by simp
  have g2: "get_optimal_guess double_ops (st_candidates ?st1) ?d 30 = Inr ''ba''"
    by (simp add: get_optimal_guess_def)
  have f2: "generate_feedback ''ba'' ''ba'' = Inr [CORRECT, CORRECT]" by code_simp
  have s2: "play_loop double_ops ''ba'' ?d (1 # [2..<6]) ?st1
      = Inr (?st1\<lparr>st_guesses := st_guesses ?st1 @ [''ba''],
                   st_feedbacks := st_feedbacks ?st1 @ [[CORRECT, CORRECT]], st_won := True\<rparr>)"
    by (rule play_loop_Cons(1) [OF g2 f2 refl])
  show ?thesis unfolding r s1 s2 by (simp add: initial_state_def)
qed

section \<open>Claims about the game simulator\<close>

text \<open>
  C6: for a non-empty dictionary of words of the secret's length, \<open>play_optimal_game\<close>
  with \<open>max_guesses = 6\<close> returns a trajectory (it raises nothing, and the loop is
  bounded by its range): it records between 1 and 6 guesses with one feedback each; it is
  won exactly when the secret is among the recorded guesses, and then the secret is the
  last guess; and when it is not won, either all 6 turns were played or the pool is empty.
\<close>

theorem C6_game_terminates:
  assumes "all_words \<noteq> []" and "\<forall>w\<in>set all_words. length w = length secret"
  shows "\<exists>st. play_loop ops secret all_words [0..<6] (initial_state all_words) = Inr st \<and>
          play_optimal_game ops secret all_words 6
            = Inr \<lparr>traj_secret = secret, traj_guesses = st_guesses st,
                   traj_feedbacks = st_feedbacks st, traj_won = st_won st,
                   traj_num_guesses = length (st_guesses st)\<rparr> \<and>
          1 \<le> length (st_guesses st) \<and> length (st_guesses st) \<le> 6 \<and>
          length (st_feedbacks st) = length (st_guesses st) \<and>
          (st_won st \<longleftrightarrow> secret \<in> set (st_guesses st)) \<and>
          (st_won st \<longrightarrow> last (st_guesses st) = secret) \<and>
          (\<not> st_won st \<longrightarrow> length (st_guesses st) = 6 \<or> st_candidates st = [])"
proof -
  let ?st0 = "initial_state all_words"
  have i: "st_candidates ?st0 \<noteq> []" "set (st_candidates ?st0) \<subseteq> set all_words"
    "\<not> st_won ?st0" "secret \<notin> set (st_guesses ?st0)"
    using assms(1) by (simp_all add: initial_state_def)
  have z: "st_guesses ?st0 = []" "st_feedbacks ?st0 = []" by (simp_all add: initial_state_def)
  from play_loop_result [OF assms(2) i, where ns = "[0..<6]" and ops = ops] obtain st where
    run: "play_loop ops secret all_words [0..<6] ?st0 = Inr st"
    and c: "length (st_guesses st) \<le> length (st_guesses ?st0) + length [0..<6::nat]"
    and d: "[0..<6::nat] \<noteq> [] \<longrightarrow> length (st_guesses ?st0) < length (st_guesses st)"
    and e: "length (st_feedbacks st) + length (st_guesses ?st0)
              = length (st_feedbacks ?st0) + length (st_guesses st)"
    and w: "st_won st \<longleftrightarrow> secret \<in> set (st_guesses st)"
    and l: "st_won st \<longrightarrow> last (st_guesses st) = secret"
    and h: "\<not> st_won st \<longrightarrow>
          length (st_guesses st) = length (st_guesses ?st0) + length [0..<6::nat]
            \<or> st_candidates st = []"
    by blast
  from c have C: "length (st_guesses st) \<le> 6" unfolding z by simp
  from d have D: "1 \<le> length (st_guesses st)" unfolding z by (simp add: Suc_le_eq)
  from e have E: "length (st_feedbacks st) = length (st_guesses st)" unfolding z by simp
  from h have H: "\<not> st_won st \<longrightarrow> length (st_guesses st) = 6 \<or> st_candidates st = []"
    unfolding z by simp
  have P: "play_optimal_game ops secret all_words 6
            = Inr \<lparr>traj_secret = secret, traj_guesses = st_guesses st,
                   traj_feedbacks = st_feedbacks st, traj_won = st_won st,
                   traj_num_guesses = length (st_guesses st)\<rparr>"
    unfolding play_optimal_game_def using run by simp
  from run P D C E w l H show ?thesis by blast
qed

text \<open>C6 on the dictionary \<open>ab, ba\<close> with the secret \<open>ba\<close>: won at the second guess.\<close>

theorem C6_game_terminates_witness:
  "play_optimal_game double_ops ''ba'' [''ab'', ''ba''] 6
     = Inr \<lparr>traj_secret = ''ba'', traj_guesses = [''ab'', ''ba''],
            traj_feedbacks = [[PRESENT, PRESENT], [CORRECT, CORRECT]], traj_won = True,
            traj_num_guesses = 2\<rparr>"
proof -
  have ne: "[''ab'', ''ba''] \<noteq> []" by simp
  have uni: "\<forall>w\<in>set [''ab'', ''ba'']. length w = length ''ba''" by simp
  from C6_game_terminates [OF ne uni, where ops = double_ops] obtain st where
    "play_loop double_ops ''ba'' [''ab'', ''ba''] [0..<6] (initial_state [''ab'', ''ba'']) = Inr st"
    "play_optimal_game double_ops ''ba'' [''ab'', ''ba''] 6
            = Inr \<lparr>traj_secret = ''ba'', traj_guesses = st_guesses st,
                   traj_feedbacks = st_feedbacks st, traj_won = st_won st,
                   traj_num_guesses = length (st_guesses st)\<rparr>"
    by blast
  then show ?thesis unfolding demo_game by auto
qed

text \<open>
  C3: for a secret in the pool and a guess of the secret's length, the oracle returns a
  pattern \<open>fb\<close>, and whatever \<open>apply_feedback_to_candidates(pool, guess, fb)\<close> returns
  contains the secret. When all words of the pool have the secret's length the filter does
  return, and in a game on that pool, after any number \<open>k\<close> of turns, the secret is
  still in the candidate pool.
\<close>

theorem C3_true_candidate_retention:
  assumes "secret \<in> set pool" and "length guess = length secret"
  shows "\<exists>fb. generate_feedback guess secret = Inr fb \<and>
      (\<forall>p. apply_feedback_to_candidates pool guess fb = Inr p \<longrightarrow> secret \<in> set p) \<and>
      ((\<forall>w\<in>set pool. length w = length secret) \<longrightarrow>
         (\<exists>p. apply_feedback_to_candidates pool guess fb = Inr p \<and> secret \<in> set p) \<and>
         (\<forall>k. \<exists>st. play_loop ops secret pool [0..<k] (initial_state pool) = Inr st \<and>
                 secret \<in> set (st_candidates st)))"
proof -
  from generate_feedback_returns [of secret guess] assms(2) obtain fb where
    fb: "generate_feedback guess secret = Inr fb" by auto
  have keep: "secret \<in> set p" if "apply_feedback_to_candidates pool guess fb = Inr p" for p
    using apply_feedback_Inr [OF that] assms(1) fb by simp
  have game: "\<exists>st. play_loop ops secret pool [0..<k] (initial_state pool) = Inr st \<and>
                 secret \<in> set (st_candidates st)"
    if uni: "\<forall>w\<in>set pool. length w = length secret" for k
  proof -
    let ?st0 = "initial_state pool"
    have i: "st_candidates ?st0 \<noteq> []" "set (st_candidates ?st0) \<subseteq> set pool"
      "\<not> st_won ?st0" "secret \<notin> set (st_guesses ?st0)"
      using assms(1) by (auto simp: initial_state_def)
    have "secret \<in> set (st_candidates ?st0)" using assms(1) by (simp add: initial_state_def)
    with play_loop_result [OF uni i, where ns = "[0..<k]" and ops = ops] show ?thesis by blast
  qed
  have ret: "\<exists>p. apply_feedback_to_candidates pool guess fb = Inr p \<and> secret \<in> set p"
    if uni: "\<forall>w\<in>set pool. length w = length secret"
  proof -
    from uni assms(2) have "\<forall>w\<in>set pool. length w \<le> length guess" by simp
    from apply_feedback_returns [OF this, of fb] keep show ?thesis by blast
  qed
  from fb keep game ret show ?thesis by blast
qed

text \<open>C3 on the pool \<open>ab, ba\<close> with the secret \<open>ba\<close> and the guess \<open>ab\<close>.\<close>

theorem C3_true_candidate_retention_witness:
  "\<exists>fb. generate_feedback ''ab'' ''ba'' = Inr fb \<and>
      (\<exists>p. apply_feedback_to_candidates [''ab'', ''ba''] ''ab'' fb = Inr p \<and> ''ba'' \<in> set p) \<and>
      (\<exists>st. play_loop double_ops ''ba'' [''ab'', ''ba''] [0..<6] (initial_state [''ab'', ''ba'']) = Inr st \<and>
                 ''ba'' \<in> set (st_candidates st))"
proof -
  have m: "''ba'' \<in> set [''ab'', ''ba'']" by simp
  have l: "length ''ab'' = length ''ba''" by simp
  have uni: "\<forall>w\<in>set [''ab'', ''ba'']. length w = length ''ba''" by simp
  from C3_true_candidate_retention [OF m l, where ops = double_ops] uni show ?thesis by blast
qed

end
